theory Spec2Isabelle
  imports Main "HOL-Library.Word" "HOL-Library.Stream" "HOL-Library.Multiset"
begin

section \<open>Strings\<close>

text \<open>
  A JavaScript string is a sequence of UTF-16 code units. \<open>split\<close>, \<open>join\<close>,
  \<open>===\<close> and the regular expression of \<open>parseRoomNumber\<close> all work on code units,
  so a string is a list of 16-bit words. \<open>js\<close> writes an ASCII literal; a character
  outside ASCII is written as its code unit.
\<close>

type_synonym jschar = "16 word"
type_synonym jsstring = "jschar list"

definition js :: "string \<Rightarrow> jsstring" where
  "js s = map (\<lambda>c. of_nat (of_char c)) s"

text \<open>The separator \<open>'-'\<close> of a room number.\<close>

definition dash :: jschar where
  "dash = 0x2D"

text \<open>\<open>String.prototype.split(sep)\<close> for a one-character separator: the pieces between
  the occurrences of the separator, at least one piece (\<open>''.split('-')\<close> is \<open>['']\<close>).\<close>

fun split :: "jschar \<Rightarrow> jsstring \<Rightarrow> jsstring list" where
  "split sep [] = [[]]"
| "split sep (c # cs) =
     (let ps = split sep cs
      in if c = sep then [] # ps else (c # hd ps) # tl ps)"

text \<open>\<open>Array.prototype.join(sep)\<close> on an array of strings.\<close>

fun join :: "jschar \<Rightarrow> jsstring list \<Rightarrow> jsstring" where
  "join sep [] = []"
| "join sep [p] = p"
| "join sep (p # q # ps) = p @ sep # join sep (q # ps)"

text \<open>The test \<open>/^[A-Za-z]$/.test(s)\<close>: the string is exactly one code unit, in
  \<open>A..Z\<close> or \<open>a..z\<close>.\<close>

definition isLetter :: "jschar \<Rightarrow> bool" where
  "isLetter c = ((0x41 \<le> c \<and> c \<le> 0x5A) \<or> (0x61 \<le> c \<and> c \<le> 0x7A))"

fun isSingleLetter :: "jsstring \<Rightarrow> bool" where
  "isSingleLetter [c] = isLetter c"
| "isSingleLetter _ = False"

section \<open>Room numbers\<close>

text \<open>The object \<open>{ baseRoom, bedroom }\<close> returned by \<open>parseRoomNumber\<close>;
  \<open>bedroom\<close> is \<open>null\<close> (\<open>None\<close>) when the room number has no bedroom suffix.\<close>

record parsedRoom =
  baseRoom :: jsstring
  bedroom :: "jsstring option"

text \<open>
  \<open>parseRoomNumber\<close> (lottery.js, 263-281). \<open>parts[parts.length - 1]\<close> is
  \<open>last parts\<close> (\<open>split\<close> never returns the empty array), \<open>parts.slice(0, -1)\<close>
  is \<open>butlast parts\<close>.
\<close>

definition parseRoomNumber :: "jsstring \<Rightarrow> parsedRoom" where
  "parseRoomNumber roomNumber =
     (let parts = split dash roomNumber;
          lastPart = last parts;
          isBedroomSuffix = isSingleLetter lastPart
      in if isBedroomSuffix \<and> length parts > 4
         then \<lparr>baseRoom = join dash (butlast parts), bedroom = Some lastPart\<rparr>
         else \<lparr>baseRoom = roomNumber, bedroom = None\<rparr>)"

section \<open>The random source\<close>

text \<open>
  \<open>Math.random()\<close> returns a number \<open>r\<close> with \<open>0 \<le> r < 1\<close>. The program only ever
  computes \<open>Math.floor(r * m)\<close> for a natural number \<open>m\<close> and tests \<open>r < 0.5\<close>.
  A draw \<open>Draw n k\<close> stands for the fraction \<open>n / (n + k + 1)\<close>: every rational
  number of the unit interval, and no other number, is such a fraction. Rounding of
  the floating-point product is not modelled. The random source is the infinite
  sequence of the draws to come; each call of \<open>Math.random()\<close> takes its head.
\<close>

datatype draw = Draw nat nat

fun floorTimes :: "draw \<Rightarrow> nat \<Rightarrow> nat" where
  "floorTimes (Draw n k) m = (n * m) div (n + k + 1)"

fun lessHalf :: "draw \<Rightarrow> bool" where
  "lessHalf (Draw n k) = (2 * n < n + k + 1)"

type_synonym rng = "draw stream"

text \<open>
  \<open>shuffleArray\<close> (lottery.js, 407-412). \<open>shuffleFrom i\<close> is the loop from index
  \<open>i\<close> down to \<open>1\<close>; the destructuring swap reads both elements before it writes.
  The array is mutated in place: the model returns the new array and the rest of the
  random source.
\<close>

fun shuffleFrom :: "nat \<Rightarrow> rng \<Rightarrow> 'a list \<Rightarrow> 'a list \<times> rng" where
  "shuffleFrom 0 rnd array = (array, rnd)"
| "shuffleFrom (Suc i') rnd array =
     (let i = Suc i';
          j = floorTimes (shd rnd) (i + 1)
      in shuffleFrom i' (stl rnd) (array[i := array ! j, j := array ! i]))"

definition shuffleArray :: "rng \<Rightarrow> 'a list \<Rightarrow> 'a list \<times> rng" where
  "shuffleArray rnd array = shuffleFrom (length array - 1) rnd array"

section \<open>Entries\<close>

text \<open>
  The rows \<open>{ employeeId, gender, roomNumber }\<close> read from the spreadsheet, and the
  objects \<open>{ employeeId, gender }\<close> that \<open>performLottery\<close> makes of them. All three
  fields are strings: the reader leaves a gender it cannot normalise as it is.
\<close>

record employee =
  employeeId :: jsstring
  gender :: jsstring

record entry = employee +
  roomNumber :: jsstring

text \<open>The two gender strings \<open>'\<dots>'\<close> of the source: U+7537 (male) and U+5973 (female).\<close>

definition male :: jsstring where
  "male = [0x7537]"

definition female :: jsstring where
  "female = [0x5973]"

text \<open>The objects \<open>{ fullRoom, bedroom, originalIndex }\<close> pushed into a room group.\<close>

record roomInfo =
  fullRoom :: jsstring
  roomBedroom :: "jsstring option"
  originalIndex :: nat

datatype error = TypeError

section \<open>Room groups\<close>

text \<open>
  \<open>roomGroups\<close> is a plain object used as a dictionary from \<open>baseRoom\<close> to an array.
  Its own properties are kept in insertion order. The object is created by \<open>{}\<close>, so
  it inherits the properties of \<open>Object.prototype\<close>: for a key that is one of these
  names and not an own property, \<open>roomGroups[key]\<close> is the inherited value.
\<close>

type_synonym 'v jsobject = "(jsstring \<times> 'v) list"

definition objectPrototypeKeys :: "jsstring list" where
  "objectPrototypeKeys = map js
     [''constructor'', ''hasOwnProperty'', ''isPrototypeOf'', ''propertyIsEnumerable'',
      ''toLocaleString'', ''toString'', ''valueOf'', ''__proto__'',
      ''__defineGetter__'', ''__defineSetter__'', ''__lookupGetter__'', ''__lookupSetter__'']"

fun pushTo :: "jsstring \<Rightarrow> 'v \<Rightarrow> 'v list jsobject \<Rightarrow> 'v list jsobject" where
  "pushTo key x [] = []"
| "pushTo key x ((k, xs) # rest) =
     (if k = key then (k, xs @ [x]) # rest else (k, xs) # pushTo key x rest)"

text \<open>
  The callback of \<open>rooms.forEach\<close> (lottery.js, 304-314). An own property is a
  non-empty array, so it is truthy and \<open>push\<close> appends to it. A key that is not an own
  property and not inherited is created with \<open>[]\<close>. An inherited value is truthy and
  has no \<open>push\<close>: the call raises a TypeError.
\<close>

definition addRoom :: "roomInfo list jsobject \<Rightarrow> jsstring \<times> nat \<Rightarrow> error + roomInfo list jsobject" where
  "addRoom roomGroups x =
     (let room = fst x; index = snd x;
          parsed = parseRoomNumber room;
          info = \<lparr>fullRoom = room, roomBedroom = bedroom parsed, originalIndex = index\<rparr>
      in case map_of roomGroups (baseRoom parsed) of
           Some roomList \<Rightarrow> Inr (pushTo (baseRoom parsed) info roomGroups)
         | None \<Rightarrow>
             if baseRoom parsed \<in> set objectPrototypeKeys then Inl TypeError
             else Inr (roomGroups @ [(baseRoom parsed, [info])]))"

fun forEachRoom :: "roomInfo list jsobject \<Rightarrow> (jsstring \<times> nat) list \<Rightarrow> error + roomInfo list jsobject" where
  "forEachRoom roomGroups [] = Inr roomGroups"
| "forEachRoom roomGroups (x # xs) =
     (case addRoom roomGroups x of
        Inl e \<Rightarrow> Inl e
      | Inr roomGroups' \<Rightarrow> forEachRoom roomGroups' xs)"

text \<open>
  \<open>Object.entries\<close> lists the own properties whose key is an array index (a canonical
  decimal numeral below \<open>2^32 - 1\<close>) first, in ascending numeric order, and the other
  keys after them in insertion order.
\<close>

definition isDigit :: "jschar \<Rightarrow> bool" where
  "isDigit c = (0x30 \<le> c \<and> c \<le> 0x39)"

definition decimalValue :: "jsstring \<Rightarrow> nat" where
  "decimalValue s = foldl (\<lambda>v c. 10 * v + (unat c - 0x30)) 0 s"

definition isArrayIndex :: "jsstring \<Rightarrow> bool" where
  "isArrayIndex s =
     (s \<noteq> [] \<and> list_all isDigit s \<and> (length s = 1 \<or> hd s \<noteq> 0x30) \<and>
      decimalValue s < 2 ^ 32 - 1)"

definition objectEntries :: "'v jsobject \<Rightarrow> (jsstring \<times> 'v) list" where
  "objectEntries obj =
     sort_key (\<lambda>kv. decimalValue (fst kv)) (filter (\<lambda>kv. isArrayIndex (fst kv)) obj) @
     filter (\<lambda>kv. \<not> isArrayIndex (fst kv)) obj"

text \<open>Reading \<open>array[i]\<close>: \<open>undefined\<close> (\<open>None\<close>) out of range.\<close>

definition arrayGet :: "'a list \<Rightarrow> nat \<Rightarrow> 'a option" where
  "arrayGet array i = (if i < length array then Some (array ! i) else None)"

text \<open>
  The loop over \<open>Object.entries(roomGroups)\<close> (lottery.js, 317-326): a group of two or
  more goes to \<open>sharedRooms\<close>, of any other group \<open>roomList[0]\<close> goes to
  \<open>singleRooms\<close>.
\<close>

fun separateRooms :: "(jsstring \<times> roomInfo list) list \<Rightarrow> roomInfo list list \<times> roomInfo option list" where
  "separateRooms [] = ([], [])"
| "separateRooms ((key, roomList) # rest) =
     (let (sharedRooms, singleRooms) = separateRooms rest
      in if length roomList \<ge> 2 then (roomList # sharedRooms, singleRooms)
         else (sharedRooms, arrayGet roomList 0 # singleRooms))"

text \<open>Lines 302-326 together: the room analysis of the array \<open>rooms\<close>.\<close>

definition analyseRooms :: "jsstring list \<Rightarrow> error + (roomInfo list list \<times> roomInfo option list)" where
  "analyseRooms rooms =
     (case forEachRoom [] (zip rooms [0..<length rooms]) of
        Inl e \<Rightarrow> Inl e
      | Inr roomGroups \<Rightarrow> Inr (separateRooms (objectEntries roomGroups)))"

section \<open>The lottery\<close>

text \<open>
  The file lottery.js holds an earlier revision of the module (lines 1-235) before the
  current one (lines 236-476). The two differ in \<open>performLottery\<close> only: where neither
  pool is long enough for a shared group, the earlier revision fills as much of the
  group as it can from the longer pool, and the current one sets the group aside in
  \<open>unassignedSharedRooms\<close>. The definitions follow the current revision, and line
  numbers refer to it.
\<close>

text \<open>
  \<open>result\<close> is created by \<open>new Array(data.length)\<close>: an array of holes, and a hole
  reads as \<open>undefined\<close> (\<open>None\<close>). An assignment \<open>result[i] = v\<close> beyond the length
  extends the array with holes.
\<close>

definition arraySet :: "'a option list \<Rightarrow> nat \<Rightarrow> 'a \<Rightarrow> 'a option list" where
  "arraySet array i v =
     (if i < length array then array[i := Some v]
      else array @ replicate (i - length array) None @ [Some v])"

text \<open>The object \<open>{ employeeId, gender, roomNumber }\<close> stored for a filled room.\<close>

definition assignment :: "employee \<Rightarrow> roomInfo \<Rightarrow> entry" where
  "assignment employee roomInfo =
     \<lparr>employeeId = employeeId employee, gender = gender employee,
      roomNumber = fullRoom roomInfo\<rparr>"

text \<open>
  The variables of \<open>performLottery\<close> that the loop over the shared rooms reads and
  writes, and the random source.
\<close>

record lottery =
  maleEmployees :: "employee list"
  femaleEmployees :: "employee list"
  result :: "entry option list"
  unassignedSharedRooms :: "roomInfo list"
  random :: rng

text \<open>\<open>selectedPool\<close> is a reference to one of the two arrays, or \<open>null\<close>.\<close>

datatype pool = MaleEmployees | FemaleEmployees

text \<open>
  The choice of the pool (lottery.js, 344-352). \<open>Math.random()\<close> is called only
  when both pools are long enough.
\<close>

definition selectPool :: "lottery \<Rightarrow> nat \<Rightarrow> pool option \<times> rng" where
  "selectPool st roomCount =
     (if length (maleEmployees st) \<ge> roomCount \<and> length (femaleEmployees st) \<ge> roomCount
      then (Some (if lessHalf (shd (random st)) then MaleEmployees else FemaleEmployees),
            stl (random st))
      else if length (maleEmployees st) \<ge> roomCount then (Some MaleEmployees, random st)
      else if length (femaleEmployees st) \<ge> roomCount then (Some FemaleEmployees, random st)
      else (None, random st))"

text \<open>
  The inner loop (lottery.js, 363-370). \<open>shift()\<close> on an empty array returns
  \<open>undefined\<close>, and reading \<open>employee.employeeId\<close> then raises a TypeError.
\<close>

fun assignGroup :: "roomInfo list \<Rightarrow> employee list \<Rightarrow> entry option list \<Rightarrow>
    error + (employee list \<times> entry option list)" where
  "assignGroup [] selectedPool res = Inr (selectedPool, res)"
| "assignGroup (roomInfo # roomGroup) selectedPool res =
     (case selectedPool of
        [] \<Rightarrow> Inl TypeError
      | employee # selectedPool' \<Rightarrow>
          assignGroup roomGroup selectedPool'
            (arraySet res (originalIndex roomInfo) (assignment employee roomInfo)))"

text \<open>One iteration of the loop over \<open>sharedRooms\<close> (lottery.js, 340-371).\<close>

definition sharedStep :: "lottery \<Rightarrow> roomInfo list \<Rightarrow> error + lottery" where
  "sharedStep st roomGroup =
     (let roomCount = length roomGroup;
          (selectedPool, rnd) = selectPool st roomCount
      in case selectedPool of
           None \<Rightarrow>
             Inr (st\<lparr>unassignedSharedRooms := unassignedSharedRooms st @ roomGroup,
                     random := rnd\<rparr>)
         | Some MaleEmployees \<Rightarrow>
             (case assignGroup roomGroup (maleEmployees st) (result st) of
                Inl e \<Rightarrow> Inl e
              | Inr (pool', res') \<Rightarrow>
                  Inr (st\<lparr>maleEmployees := pool', result := res', random := rnd\<rparr>))
         | Some FemaleEmployees \<Rightarrow>
             (case assignGroup roomGroup (femaleEmployees st) (result st) of
                Inl e \<Rightarrow> Inl e
              | Inr (pool', res') \<Rightarrow>
                  Inr (st\<lparr>femaleEmployees := pool', result := res', random := rnd\<rparr>)))"

fun sharedLoop :: "roomInfo list list \<Rightarrow> lottery \<Rightarrow> error + lottery" where
  "sharedLoop [] st = Inr st"
| "sharedLoop (roomGroup # sharedRooms) st =
     (case sharedStep st roomGroup of
        Inl e \<Rightarrow> Inl e
      | Inr st' \<Rightarrow> sharedLoop sharedRooms st')"

text \<open>
  The loop over \<open>allSingleRooms\<close> (lottery.js, 382-392). An element of the array is
  \<open>undefined\<close> when it was read from an empty room list; reading its
  \<open>originalIndex\<close> raises a TypeError.
\<close>

fun singleLoop :: "roomInfo option list \<Rightarrow> employee list \<Rightarrow> entry option list \<Rightarrow>
    error + entry option list" where
  "singleLoop [] remainingEmployees res = Inr res"
| "singleLoop (roomInfo # allSingleRooms) remainingEmployees res =
     (case remainingEmployees of
        [] \<Rightarrow> singleLoop allSingleRooms remainingEmployees res
      | employee # remainingEmployees' \<Rightarrow>
          (case roomInfo of
             None \<Rightarrow> Inl TypeError
           | Some info \<Rightarrow>
               singleLoop allSingleRooms remainingEmployees'
                 (arraySet res (originalIndex info) (assignment employee info))))"

text \<open>
  \<open>performLottery\<close> in three parts. \<open>JSON.parse(JSON.stringify(\<dots>))\<close> copies an array
  of objects with three string fields: the copy has the same value.

  Lines 289-371: the arrays \<open>employees\<close> and \<open>rooms\<close>, the pools, the room
  analysis, the first three shuffles and the loop over the shared rooms. The result is
  the state after the loop, and \<open>singleRooms\<close>.
\<close>

definition employeeOf :: "entry \<Rightarrow> employee" where
  "employeeOf d = \<lparr>employeeId = employeeId d, gender = gender d\<rparr>"

definition employees :: "entry list \<Rightarrow> employee list" where
  "employees data = map employeeOf data"

definition rooms :: "entry list \<Rightarrow> jsstring list" where
  "rooms data = map roomNumber data"

definition sharedPhase :: "rng \<Rightarrow> entry list \<Rightarrow> error + (lottery \<times> roomInfo option list)" where
  "sharedPhase rnd originalData =
     (let data = originalData;
          males = filter (\<lambda>e. gender e = male) (employees data);
          females = filter (\<lambda>e. gender e = female) (employees data)
      in case analyseRooms (rooms data) of
           Inl e \<Rightarrow> Inl e
         | Inr (sharedRooms, singleRooms) \<Rightarrow>
             let (males', rnd1) = shuffleArray rnd males;
                 (females', rnd2) = shuffleArray rnd1 females;
                 (sharedRooms', rnd3) = shuffleArray rnd2 sharedRooms
             in case sharedLoop sharedRooms'
                       \<lparr>maleEmployees = males', femaleEmployees = females',
                        result = replicate (length data) None,
                        unassignedSharedRooms = [], random = rnd3\<rparr> of
                  Inl e \<Rightarrow> Inl e
                | Inr st \<Rightarrow> Inr (st, singleRooms))"

text \<open>Lines 373-392: the remaining employees and all single rooms (the single rooms
  followed by the unassigned shared rooms), both shuffled, and the loop over the single
  rooms. The result is the array \<open>result\<close>.\<close>

definition allSingleRooms :: "lottery \<Rightarrow> roomInfo option list \<Rightarrow> roomInfo option list" where
  "allSingleRooms st singleRooms = singleRooms @ map Some (unassignedSharedRooms st)"

definition singlePhase :: "lottery \<Rightarrow> roomInfo option list \<Rightarrow> error + (entry option list \<times> rng)" where
  "singlePhase st singleRooms =
     (let (remainingEmployees, rnd1) =
            shuffleArray (random st) (maleEmployees st @ femaleEmployees st);
          (allSingleRooms', rnd2) = shuffleArray rnd1 (allSingleRooms st singleRooms)
      in case singleLoop allSingleRooms' remainingEmployees (result st) of
           Inl e \<Rightarrow> Inl e
         | Inr res' \<Rightarrow> Inr (res', rnd2))"

text \<open>The array \<open>result\<close> at line 393, with the rest of the random source.\<close>

definition allocation :: "rng \<Rightarrow> entry list \<Rightarrow> error + (entry option list \<times> rng)" where
  "allocation rnd originalData =
     (case sharedPhase rnd originalData of
        Inl e \<Rightarrow> Inl e
      | Inr (st, singleRooms) \<Rightarrow> singlePhase st singleRooms)"

text \<open>The filter of line 395: the holes and \<open>undefined\<close> are dropped.\<close>

fun filled :: "'a option list \<Rightarrow> 'a list" where
  "filled [] = []"
| "filled (None # rs) = filled rs"
| "filled (Some r # rs) = r # filled rs"

text \<open>\<open>performLottery\<close> (lottery.js, 288-401): the shuffled filled entries.\<close>

definition performLottery :: "rng \<Rightarrow> entry list \<Rightarrow> error + (entry list \<times> rng)" where
  "performLottery rnd originalData =
     (case allocation rnd originalData of
        Inl e \<Rightarrow> Inl e
      | Inr (res', rnd') \<Rightarrow> Inr (shuffleArray rnd' (filled res')))"

text \<open>The slots of the shared groups that no pool could fill: \<open>unassignedSharedRooms\<close>
  after the loop over the shared rooms.\<close>

definition overflow :: "rng \<Rightarrow> entry list \<Rightarrow> roomInfo list" where
  "overflow rnd originalData =
     (case sharedPhase rnd originalData of
        Inl e \<Rightarrow> []
      | Inr (st, singleRooms) \<Rightarrow> unassignedSharedRooms st)"

section \<open>The roll session\<close>

text \<open>The fields of the object \<open>LotteryModule\<close>; \<open>rollInterval\<close> is \<open>null\<close> or the
  handle that \<open>setInterval\<close> returned.\<close>

record lotteryModule =
  originalData :: "entry list"
  currentData :: "entry list"
  isRolling :: bool
  rollInterval :: "nat option"

text \<open>
  The module runs in a window. The window holds the interval timers that are active,
  each with the variables its callback closes over (the array \<open>data\<close> and the
  function \<open>updateCallback\<close>), the last handle given out (handles are positive
  integers), and the random source. A callback passed by the caller is opaque: the
  model records each invocation, with its two arguments, in \<open>calls\<close>, and assumes
  that the callback does not call the module.
\<close>

record 'cb window =
  LotteryModule :: lotteryModule
  intervals :: "(nat \<times> entry list \<times> 'cb) list"
  lastHandle :: nat
  randomSource :: rng
  calls :: "('cb \<times> entry list \<times> bool) list"

text \<open>The window when the script has been loaded (lottery.js, 241-245).\<close>

definition loaded :: "rng \<Rightarrow> 'cb window" where
  "loaded rnd =
     \<lparr>LotteryModule =
        \<lparr>originalData = [], currentData = [], isRolling = False, rollInterval = None\<rparr>,
      intervals = [], lastHandle = 0, randomSource = rnd, calls = []\<rparr>"

text \<open>\<open>init\<close> (lottery.js, 251-255). The two copies made by
  \<open>JSON.parse(JSON.stringify(data))\<close> have the value of \<open>data\<close>; \<open>rollInterval\<close> is
  not touched.\<close>

definition init :: "entry list \<Rightarrow> 'cb window \<Rightarrow> 'cb window" where
  "init data w =
     w\<lparr>LotteryModule :=
         (LotteryModule w)\<lparr>originalData := data, currentData := data, isRolling := False\<rparr>\<rparr>"

text \<open>\<open>startRolling\<close> (lottery.js, 418-440): the timer closes over the array that
  \<open>originalData\<close> refers to at this moment.\<close>

definition startRolling :: "'cb \<Rightarrow> 'cb window \<Rightarrow> 'cb window" where
  "startRolling updateCallback w =
     (if isRolling (LotteryModule w) then w
      else
        let data = originalData (LotteryModule w);
            handle = Suc (lastHandle w)
        in w\<lparr>LotteryModule :=
               (LotteryModule w)\<lparr>isRolling := True, rollInterval := Some handle\<rparr>,
             intervals := intervals w @ [(handle, data, updateCallback)],
             lastHandle := handle\<rparr>)"

text \<open>The rows of \<open>randomDisplay\<close> (lottery.js, 427-436): two draws for each item of
  \<open>data\<close>.\<close>

fun randomRows :: "entry list \<Rightarrow> entry list \<Rightarrow> rng \<Rightarrow> entry list \<times> rng" where
  "randomRows data [] rnd = ([], rnd)"
| "randomRows data (item # items) rnd =
     (let randomEmpIndex = floorTimes (shd rnd) (length data);
          randomRoomIndex = floorTimes (shd (stl rnd)) (length data);
          row = \<lparr>employeeId = employeeId (data ! randomEmpIndex),
                 gender = gender (data ! randomEmpIndex),
                 roomNumber = roomNumber (data ! randomRoomIndex)\<rparr>;
          (rows, rnd') = randomRows data items (stl (stl rnd))
      in (row # rows, rnd'))"

text \<open>The timer with handle \<open>h\<close> fires (lottery.js, 425-439). A handle that is not
  active does not fire.\<close>

definition tick :: "nat \<Rightarrow> 'cb window \<Rightarrow> 'cb window" where
  "tick h w =
     (case map_of (intervals w) h of
        None \<Rightarrow> w
      | Some (data, updateCallback) \<Rightarrow>
          let (randomDisplay, rnd') = randomRows data data (randomSource w)
          in w\<lparr>randomSource := rnd',
               calls := calls w @ [(updateCallback, randomDisplay, True)]\<rparr>)"

definition clearInterval :: "nat \<Rightarrow> 'cb window \<Rightarrow> 'cb window" where
  "clearInterval h w = w\<lparr>intervals := filter (\<lambda>t. fst t \<noteq> h) (intervals w)\<rparr>"

text \<open>\<open>stopRolling\<close> (lottery.js, 447-464), with the value it returns. The test
  \<open>if (this.rollInterval)\<close> is false for \<open>null\<close> and for \<open>0\<close>. An exception of
  \<open>performLottery\<close> leaves the function after the timer has been cleared; it is
  raised in the room analysis, before the first draw.\<close>

definition stopRolling :: "'cb \<Rightarrow> 'cb window \<Rightarrow> 'cb window \<times> (error + entry list)" where
  "stopRolling updateCallback w =
     (if \<not> isRolling (LotteryModule w) then (w, Inr (currentData (LotteryModule w)))
      else
        let w1 = w\<lparr>LotteryModule := (LotteryModule w)\<lparr>isRolling := False\<rparr>\<rparr>;
            w2 = (case rollInterval (LotteryModule w1) of
                    None \<Rightarrow> w1
                  | Some h \<Rightarrow>
                      if h = 0 then w1
                      else (clearInterval h w1)
                             \<lparr>LotteryModule := (LotteryModule w1)\<lparr>rollInterval := None\<rparr>\<rparr>)
        in case performLottery (randomSource w2) (originalData (LotteryModule w2)) of
             Inl e \<Rightarrow> (w2, Inl e)
           | Inr (res, rnd') \<Rightarrow>
               (w2\<lparr>LotteryModule := (LotteryModule w2)\<lparr>currentData := res\<rparr>,
                   randomSource := rnd',
                   calls := calls w2 @ [(updateCallback, res, False)]\<rparr>,
                Inr res))"

text \<open>\<open>getCurrentData\<close> (lottery.js, 470-472).\<close>

definition getCurrentData :: "'cb window \<Rightarrow> entry list" where
  "getCurrentData w = currentData (LotteryModule w)"

text \<open>What can happen to the window after \<open>init\<close>: a call of one of the three other
  functions, or a timer that fires.\<close>

datatype 'cb event = StartRolling 'cb | StopRolling 'cb | GetCurrentData | Tick nat

fun happen :: "'cb window \<Rightarrow> 'cb event \<Rightarrow> 'cb window" where
  "happen w (StartRolling updateCallback) = startRolling updateCallback w"
| "happen w (StopRolling updateCallback) = fst (stopRolling updateCallback w)"
| "happen w GetCurrentData = w"
| "happen w (Tick h) = tick h w"

definition events :: "'cb window \<Rightarrow> 'cb event list \<Rightarrow> 'cb window" where
  "events w es = foldl happen w es"

section \<open>The store\<close>

text \<open>
  Arrays and objects are passed and stored by reference. To tell an array from a copy of
  it, the arrays of entries and the entry objects \<open>{ employeeId, gender, roomNumber }\<close>
  are kept in a store: two lists of cells, where the address of a cell is its index and
  an allocation appends a cell. An element of an array is a reference to an object, or
  \<open>None\<close> where the array holds no object (a hole, \<open>undefined\<close> or \<open>null\<close>).
  A reference beyond the store does not occur in a store made by the functions below; it
  is read as no object, and as the empty array.

  The other arrays and objects that \<open>performLottery\<close> makes (\<open>employees\<close>,
  \<open>rooms\<close>, the pools, the room groups) hold strings and numbers read out of
  \<open>data\<close> and no reference to an entry object, and no reference to them leaves the
  call: they are values, as in the sections above. The functions of this section carry the
  suffix \<open>S\<close> where a function of the same name is defined above on values.
\<close>

type_synonym ref = nat

record store =
  objects :: "entry list"
  arrays :: "ref option list list"

text \<open>An object literal and \<open>new Array\<close> (or an array made by \<open>map\<close> or
  \<open>filter\<close>) allocate a cell; \<open>array[i]\<close> and a property of an element are reads;
  \<open>setElements\<close> is a write to the cell of an array, in place.\<close>

definition newObject :: "entry \<Rightarrow> store \<Rightarrow> ref \<times> store" where
  "newObject d s = (length (objects s), s\<lparr>objects := objects s @ [d]\<rparr>)"

definition newArray :: "ref option list \<Rightarrow> store \<Rightarrow> ref \<times> store" where
  "newArray xs s = (length (arrays s), s\<lparr>arrays := arrays s @ [xs]\<rparr>)"

definition elements :: "store \<Rightarrow> ref \<Rightarrow> ref option list" where
  "elements s a = (if a < length (arrays s) then arrays s ! a else [])"

definition objectAt :: "store \<Rightarrow> ref option \<Rightarrow> entry option" where
  "objectAt s x =
     (case x of
        None \<Rightarrow> None
      | Some r \<Rightarrow> if r < length (objects s) then Some (objects s ! r) else None)"

definition setElements :: "ref \<Rightarrow> ref option list \<Rightarrow> store \<Rightarrow> store" where
  "setElements a xs s = s\<lparr>arrays := (arrays s)[a := xs]\<rparr>"

text \<open>
  \<open>JSON.parse(JSON.stringify(array))\<close> (lottery.js, 252, 253 and 289):
  \<open>stringify\<close> reads the array and the objects in it, with \<open>null\<close> for an element
  that is no object, and \<open>parse\<close> makes a new object for each object and a new array.
  The order in which the cells are allocated is not observable.
\<close>

fun newObjects :: "entry option list \<Rightarrow> store \<Rightarrow> ref option list \<times> store" where
  "newObjects [] s = ([], s)"
| "newObjects (None # ds) s =
     (let (rs, s') = newObjects ds s in (None # rs, s'))"
| "newObjects (Some d # ds) s =
     (let (r, s1) = newObject d s;
          (rs, s2) = newObjects ds s1
      in (Some r # rs, s2))"

definition jsonCopy :: "ref \<Rightarrow> store \<Rightarrow> ref \<times> store" where
  "jsonCopy a s =
     (let (rs, s1) = newObjects (map (objectAt s) (elements s a)) s
      in newArray rs s1)"

text \<open>The two calls \<open>data.map(d => \<dots>)\<close> (lottery.js, 292-296) read the fields of
  every element; an element that is no object raises a TypeError.\<close>

fun readAll :: "entry option list \<Rightarrow> error + entry list" where
  "readAll [] = Inr []"
| "readAll (None # ds) = Inl TypeError"
| "readAll (Some d # ds) =
     (case readAll ds of
        Inl e \<Rightarrow> Inl e
      | Inr ds' \<Rightarrow> Inr (d # ds'))"

text \<open>The assignment \<open>result[roomInfo.originalIndex] = { \<dots> }\<close> (lottery.js, 365-369
  and 385-389): a new object, and a write to the array \<open>result\<close>.\<close>

definition assignS :: "ref \<Rightarrow> roomInfo \<Rightarrow> employee \<Rightarrow> store \<Rightarrow> store" where
  "assignS res roomInfo employee s =
     (let (r, s1) = newObject (assignment employee roomInfo) s
      in setElements res (arraySet (elements s1 res) (originalIndex roomInfo) r) s1)"

text \<open>The variables of the loop over the shared rooms, with the reference \<open>result\<close>
  and the store; the loops are those of the section on the lottery, with the writes to
  \<open>result\<close> made in the store.\<close>

record lotteryS =
  maleEmployeesS :: "employee list"
  femaleEmployeesS :: "employee list"
  resultS :: ref
  unassignedSharedRoomsS :: "roomInfo list"
  randomS :: rng
  storeS :: store

definition selectPoolS :: "lotteryS \<Rightarrow> nat \<Rightarrow> pool option \<times> rng" where
  "selectPoolS st roomCount =
     (if length (maleEmployeesS st) \<ge> roomCount \<and> length (femaleEmployeesS st) \<ge> roomCount
      then (Some (if lessHalf (shd (randomS st)) then MaleEmployees else FemaleEmployees),
            stl (randomS st))
      else if length (maleEmployeesS st) \<ge> roomCount then (Some MaleEmployees, randomS st)
      else if length (femaleEmployeesS st) \<ge> roomCount then (Some FemaleEmployees, randomS st)
      else (None, randomS st))"

fun assignGroupS :: "roomInfo list \<Rightarrow> employee list \<Rightarrow> ref \<Rightarrow> store \<Rightarrow>
    error + (employee list \<times> store)" where
  "assignGroupS [] selectedPool res s = Inr (selectedPool, s)"
| "assignGroupS (roomInfo # roomGroup) selectedPool res s =
     (case selectedPool of
        [] \<Rightarrow> Inl TypeError
      | employee # selectedPool' \<Rightarrow>
          assignGroupS roomGroup selectedPool' res (assignS res roomInfo employee s))"

definition sharedStepS :: "lotteryS \<Rightarrow> roomInfo list \<Rightarrow> error + lotteryS" where
  "sharedStepS st roomGroup =
     (let roomCount = length roomGroup;
          (selectedPool, rnd) = selectPoolS st roomCount
      in case selectedPool of
           None \<Rightarrow>
             Inr (st\<lparr>unassignedSharedRoomsS := unassignedSharedRoomsS st @ roomGroup,
                     randomS := rnd\<rparr>)
         | Some MaleEmployees \<Rightarrow>
             (case assignGroupS roomGroup (maleEmployeesS st) (resultS st) (storeS st) of
                Inl e \<Rightarrow> Inl e
              | Inr (pool', s') \<Rightarrow>
                  Inr (st\<lparr>maleEmployeesS := pool', storeS := s', randomS := rnd\<rparr>))
         | Some FemaleEmployees \<Rightarrow>
             (case assignGroupS roomGroup (femaleEmployeesS st) (resultS st) (storeS st) of
                Inl e \<Rightarrow> Inl e
              | Inr (pool', s') \<Rightarrow>
                  Inr (st\<lparr>femaleEmployeesS := pool', storeS := s', randomS := rnd\<rparr>)))"

fun sharedLoopS :: "roomInfo list list \<Rightarrow> lotteryS \<Rightarrow> error + lotteryS" where
  "sharedLoopS [] st = Inr st"
| "sharedLoopS (roomGroup # sharedRooms) st =
     (case sharedStepS st roomGroup of
        Inl e \<Rightarrow> Inl e
      | Inr st' \<Rightarrow> sharedLoopS sharedRooms st')"

fun singleLoopS :: "roomInfo option list \<Rightarrow> employee list \<Rightarrow> ref \<Rightarrow> store \<Rightarrow>
    error + store" where
  "singleLoopS [] remainingEmployees res s = Inr s"
| "singleLoopS (roomInfo # roomInfos) remainingEmployees res s =
     (case remainingEmployees of
        [] \<Rightarrow> singleLoopS roomInfos remainingEmployees res s
      | employee # remainingEmployees' \<Rightarrow>
          (case roomInfo of
             None \<Rightarrow> Inl TypeError
           | Some info \<Rightarrow>
               singleLoopS roomInfos remainingEmployees' res (assignS res info employee s)))"

text \<open>
  \<open>performLottery\<close> (lottery.js, 288-401) on the store. \<open>original\<close> is the value of
  \<open>this.originalData\<close>. The shuffles of the pools and of the room arrays act on the
  values; \<open>result.filter\<close> makes the new array \<open>finalResult\<close>, which is shuffled in
  place and returned. When the call raises, the cells it has allocated are unreachable:
  the model drops them.
\<close>

definition performLotteryS :: "rng \<Rightarrow> ref \<Rightarrow> store \<Rightarrow> error + (ref \<times> rng \<times> store)" where
  "performLotteryS rnd original s =
     (let (data, s1) = jsonCopy original s
      in case readAll (map (objectAt s1) (elements s1 data)) of
           Inl e \<Rightarrow> Inl e
         | Inr ds \<Rightarrow>
             let males = filter (\<lambda>e. gender e = male) (employees ds);
                 females = filter (\<lambda>e. gender e = female) (employees ds)
             in case analyseRooms (rooms ds) of
                  Inl e \<Rightarrow> Inl e
                | Inr (sharedRooms, singleRooms) \<Rightarrow>
                    let (males', rnd1) = shuffleArray rnd males;
                        (females', rnd2) = shuffleArray rnd1 females;
                        (res, s2) = newArray (replicate (length (elements s1 data)) None) s1;
                        (sharedRooms', rnd3) = shuffleArray rnd2 sharedRooms
                    in case sharedLoopS sharedRooms'
                              \<lparr>maleEmployeesS = males', femaleEmployeesS = females',
                               resultS = res, unassignedSharedRoomsS = [],
                               randomS = rnd3, storeS = s2\<rparr> of
                         Inl e \<Rightarrow> Inl e
                       | Inr st \<Rightarrow>
                           let (remainingEmployees, rnd4) =
                                 shuffleArray (randomS st)
                                   (maleEmployeesS st @ femaleEmployeesS st);
                               (allSingleRooms', rnd5) =
                                 shuffleArray rnd4
                                   (singleRooms @ map Some (unassignedSharedRoomsS st))
                           in case singleLoopS allSingleRooms' remainingEmployees res
                                     (storeS st) of
                                Inl e \<Rightarrow> Inl e
                              | Inr s3 \<Rightarrow>
                                  let (finalResult, s4) =
                                        newArray (filter (\<lambda>r. r \<noteq> None) (elements s3 res)) s3;
                                      (shuffled, rnd6) =
                                        shuffleArray rnd5 (elements s4 finalResult)
                                  in Inr (finalResult, rnd6,
                                          setElements finalResult shuffled s4))"

text \<open>The module and the window as in the section on the roll session, with references
  in the place of the arrays: the fields \<open>originalData\<close> and \<open>currentData\<close>, the
  variable \<open>data\<close> that a timer closes over, and the array passed to a callback.
  When the script is loaded, the two fields refer to two empty arrays.\<close>

record lotteryModuleS =
  originalDataS :: ref
  currentDataS :: ref
  isRollingS :: bool
  rollIntervalS :: "nat option"

record 'cb windowS =
  LotteryModuleS :: lotteryModuleS
  heap :: store
  intervalsS :: "(nat \<times> ref \<times> 'cb) list"
  lastHandleS :: nat
  randomSourceS :: rng
  callsS :: "('cb \<times> ref \<times> bool) list"

definition loadedS :: "rng \<Rightarrow> 'cb windowS" where
  "loadedS rnd =
     \<lparr>LotteryModuleS =
        \<lparr>originalDataS = 0, currentDataS = 1, isRollingS = False, rollIntervalS = None\<rparr>,
      heap = \<lparr>objects = [], arrays = [[], []]\<rparr>,
      intervalsS = [], lastHandleS = 0, randomSourceS = rnd, callsS = []\<rparr>"

text \<open>\<open>init\<close> (lottery.js, 251-255): two copies of the argument.\<close>

definition initS :: "ref \<Rightarrow> 'cb windowS \<Rightarrow> 'cb windowS" where
  "initS data w =
     (let (original, s1) = jsonCopy data (heap w);
          (current, s2) = jsonCopy data s1
      in w\<lparr>LotteryModuleS :=
             (LotteryModuleS w)\<lparr>originalDataS := original, currentDataS := current,
                                 isRollingS := False\<rparr>,
           heap := s2\<rparr>)"

definition startRollingS :: "'cb \<Rightarrow> 'cb windowS \<Rightarrow> 'cb windowS" where
  "startRollingS updateCallback w =
     (if isRollingS (LotteryModuleS w) then w
      else
        let data = originalDataS (LotteryModuleS w);
            handle = Suc (lastHandleS w)
        in w\<lparr>LotteryModuleS :=
               (LotteryModuleS w)\<lparr>isRollingS := True, rollIntervalS := Some handle\<rparr>,
             intervalsS := intervalsS w @ [(handle, data, updateCallback)],
             lastHandleS := handle\<rparr>)"

text \<open>The callback of \<open>data.map\<close> in the timer (lottery.js, 427-436) makes a new
  object for each item; reading a property of an element that is no object raises a
  TypeError, after the two draws of that item. The rows are then stored in the new array
  \<open>randomDisplay\<close>. A timer whose callback raises leaves the window as it is, but for
  the random source.\<close>

fun randomRowsS :: "ref option list \<Rightarrow> ref option list \<Rightarrow> rng \<Rightarrow> store \<Rightarrow>
    (error + (ref option list \<times> store)) \<times> rng" where
  "randomRowsS data [] rnd s = (Inr ([], s), rnd)"
| "randomRowsS data (item # items) rnd s =
     (let randomEmpIndex = floorTimes (shd rnd) (length data);
          randomRoomIndex = floorTimes (shd (stl rnd)) (length data)
      in case objectAt s (data ! randomEmpIndex) of
           None \<Rightarrow> (Inl TypeError, stl (stl rnd))
         | Some emp \<Rightarrow>
             (case objectAt s (data ! randomRoomIndex) of
                None \<Rightarrow> (Inl TypeError, stl (stl rnd))
              | Some room \<Rightarrow>
                  let (r, s1) = newObject \<lparr>employeeId = employeeId emp, gender = gender emp,
                                           roomNumber = roomNumber room\<rparr> s;
                      (rest, rnd') = randomRowsS data items (stl (stl rnd)) s1
                  in case rest of
                       Inl e \<Rightarrow> (Inl e, rnd')
                     | Inr (rows, s2) \<Rightarrow> (Inr (Some r # rows, s2), rnd')))"

definition tickS :: "nat \<Rightarrow> 'cb windowS \<Rightarrow> 'cb windowS" where
  "tickS h w =
     (case map_of (intervalsS w) h of
        None \<Rightarrow> w
      | Some (data, updateCallback) \<Rightarrow>
          let (rows, rnd') =
                randomRowsS (elements (heap w) data) (elements (heap w) data)
                  (randomSourceS w) (heap w)
          in case rows of
               Inl e \<Rightarrow> w\<lparr>randomSourceS := rnd'\<rparr>
             | Inr (rs, s1) \<Rightarrow>
                 let (randomDisplay, s2) = newArray rs s1
                 in w\<lparr>heap := s2, randomSourceS := rnd',
                      callsS := callsS w @ [(updateCallback, randomDisplay, True)]\<rparr>)"

definition clearIntervalS :: "nat \<Rightarrow> 'cb windowS \<Rightarrow> 'cb windowS" where
  "clearIntervalS h w = w\<lparr>intervalsS := filter (\<lambda>t. fst t \<noteq> h) (intervalsS w)\<rparr>"

definition stopRollingS :: "'cb \<Rightarrow> 'cb windowS \<Rightarrow> 'cb windowS \<times> (error + ref)" where
  "stopRollingS updateCallback w =
     (if \<not> isRollingS (LotteryModuleS w) then (w, Inr (currentDataS (LotteryModuleS w)))
      else
        let w1 = w\<lparr>LotteryModuleS := (LotteryModuleS w)\<lparr>isRollingS := False\<rparr>\<rparr>;
            w2 = (case rollIntervalS (LotteryModuleS w1) of
                    None \<Rightarrow> w1
                  | Some h \<Rightarrow>
                      if h = 0 then w1
                      else (clearIntervalS h w1)
                             \<lparr>LotteryModuleS := (LotteryModuleS w1)\<lparr>rollIntervalS := None\<rparr>\<rparr>)
        in case performLotteryS (randomSourceS w2) (originalDataS (LotteryModuleS w2))
                  (heap w2) of
             Inl e \<Rightarrow> (w2, Inl e)
           | Inr (res, rnd', s') \<Rightarrow>
               (w2\<lparr>LotteryModuleS := (LotteryModuleS w2)\<lparr>currentDataS := res\<rparr>,
                   heap := s', randomSourceS := rnd',
                   callsS := callsS w2 @ [(updateCallback, res, False)]\<rparr>,
                Inr res))"

definition getCurrentDataS :: "'cb windowS \<Rightarrow> ref" where
  "getCurrentDataS w = currentDataS (LotteryModuleS w)"

text \<open>
  What can happen to the window after \<open>init\<close>: the events of the section on the roll
  session, and writes by code outside the module: to an object (a property is assigned)
  and to an array (an element is assigned, or the array is changed in place by \<open>push\<close>,
  \<open>splice\<close>, \<open>sort\<close> \<dots>). A callback is such code: what it writes is an event
  after the call. \<open>callerWrite s\<close> holds of a write to a cell of the store \<open>s\<close>, and
  of every other event.
\<close>

datatype 'cb eventS =
    StartRollingS 'cb | StopRollingS 'cb | GetCurrentDataS | TickS nat
  | WriteObject ref entry | WriteArray ref "ref option list"

fun happenS :: "'cb windowS \<Rightarrow> 'cb eventS \<Rightarrow> 'cb windowS" where
  "happenS w (StartRollingS updateCallback) = startRollingS updateCallback w"
| "happenS w (StopRollingS updateCallback) = fst (stopRollingS updateCallback w)"
| "happenS w GetCurrentDataS = w"
| "happenS w (TickS h) = tickS h w"
| "happenS w (WriteObject r d) = w\<lparr>heap := (heap w)\<lparr>objects := (objects (heap w))[r := d]\<rparr>\<rparr>"
| "happenS w (WriteArray a xs) = w\<lparr>heap := setElements a xs (heap w)\<rparr>"

definition eventsS :: "'cb windowS \<Rightarrow> 'cb eventS list \<Rightarrow> 'cb windowS" where
  "eventsS w es = foldl happenS w es"

fun callerWrite :: "store \<Rightarrow> 'cb eventS \<Rightarrow> bool" where
  "callerWrite s (WriteObject r d) = (r < length (objects s))"
| "callerWrite s (WriteArray a xs) = (a < length (arrays s))"
| "callerWrite s e = True"

text \<open>The entries of an array, element for element.\<close>

definition entriesAt :: "store \<Rightarrow> ref \<Rightarrow> entry option list" where
  "entriesAt s a = map (objectAt s) (elements s a)"

text \<open>Every cell of the store \<open>s\<close> is a cell of \<open>s'\<close>, with the same content.\<close>

definition unchanged :: "store \<Rightarrow> store \<Rightarrow> bool" where
  "unchanged s s' \<longleftrightarrow>
     take (length (objects s)) (objects s') = objects s \<and>
     take (length (arrays s)) (arrays s') = arrays s"

text \<open>The cells allocated between the stores \<open>b\<close> and \<open>s1\<close> are cells of \<open>s\<close>, with
  the content they have in \<open>s1\<close>.\<close>

definition preserved :: "store \<Rightarrow> store \<Rightarrow> store \<Rightarrow> bool" where
  "preserved b s1 s \<longleftrightarrow>
     length (objects s1) \<le> length (objects s) \<and>
     length (arrays s1) \<le> length (arrays s) \<and>
     (\<forall>r. length (objects b) \<le> r \<and> r < length (objects s1) \<longrightarrow> objects s ! r = objects s1 ! r) \<and>
     (\<forall>a. length (arrays b) \<le> a \<and> a < length (arrays s1) \<longrightarrow> arrays s ! a = arrays s1 ! a)"

section \<open>Auxiliary definitions\<close>

text \<open>
  The writes \<open>result[roomInfo.originalIndex] = { \<dots> }\<close> of a run of either loop, as a
  list of pairs of a room and the employee it receives. The loops are shown below to
  perform exactly these writes.
\<close>

fun writeAll :: "(roomInfo \<times> employee) list \<Rightarrow> entry option list \<Rightarrow> entry option list" where
  "writeAll [] res = res"
| "writeAll ((roomInfo, employee) # ps) res =
     writeAll ps (arraySet res (originalIndex roomInfo) (assignment employee roomInfo))"

text \<open>The key under which room \<open>i\<close> of the input is grouped, and the object pushed
  for it.\<close>

definition keyAt :: "entry list \<Rightarrow> nat \<Rightarrow> jsstring" where
  "keyAt data i = baseRoom (parseRoomNumber (roomNumber (data ! i)))"

definition infoAt :: "jsstring list \<Rightarrow> nat \<Rightarrow> roomInfo" where
  "infoAt rs i =
     \<lparr>fullRoom = rs ! i, roomBedroom = bedroom (parseRoomNumber (rs ! i)), originalIndex = i\<rparr>"

text \<open>Two different rows of the input whose rooms have the same base room: two slots
  of one shared room group.\<close>

definition sameSharedGroup :: "entry list \<Rightarrow> nat \<Rightarrow> nat \<Rightarrow> bool" where
  "sameSharedGroup data i j =
     (i < length data \<and> j < length data \<and> i \<noteq> j \<and> keyAt data i = keyAt data j)"

text \<open>The rows of the input whose slot went to the overflow list.\<close>

definition overflowIndices :: "rng \<Rightarrow> entry list \<Rightarrow> nat set" where
  "overflowIndices rnd data = originalIndex ` set (overflow rnd data)"

text \<open>
  The state when the loop over the shared rooms starts (lottery.js, 289-339), with the
  shuffled array \<open>sharedRooms\<close> that the loop walks and the array \<open>singleRooms\<close>:
  \<open>sharedPhase\<close> is this start followed by the loop (lemma \<open>sharedPhase_start\<close>).
\<close>

definition sharedStart :: "rng \<Rightarrow> entry list \<Rightarrow>
    error + (roomInfo list list \<times> lottery \<times> roomInfo option list)" where
  "sharedStart rnd entries =
     (let data = entries;
          males = filter (\<lambda>e. gender e = male) (employees data);
          females = filter (\<lambda>e. gender e = female) (employees data)
      in case analyseRooms (rooms data) of
           Inl e \<Rightarrow> Inl e
         | Inr (sharedRooms, singleRooms) \<Rightarrow>
             let (males', rnd1) = shuffleArray rnd males;
                 (females', rnd2) = shuffleArray rnd1 females;
                 (sharedRooms', rnd3) = shuffleArray rnd2 sharedRooms
             in Inr (sharedRooms',
                     \<lparr>maleEmployees = males', femaleEmployees = females',
                      result = replicate (length data) None,
                      unassignedSharedRooms = [], random = rnd3\<rparr>,
                     singleRooms))"

text \<open>
  The two arrays of the loop over the single rooms (lottery.js, 374-379), after their
  shuffles: \<open>remainingEmployees\<close> and \<open>allSingleRooms\<close>.
\<close>

definition remainingShuffled :: "lottery \<Rightarrow> employee list" where
  "remainingShuffled st =
     fst (shuffleArray (random st) (maleEmployees st @ femaleEmployees st))"

definition singleRoomsShuffled :: "lottery \<Rightarrow> roomInfo option list \<Rightarrow> roomInfo option list" where
  "singleRoomsShuffled st singleRooms =
     fst (shuffleArray (snd (shuffleArray (random st) (maleEmployees st @ femaleEmployees st)))
            (allSingleRooms st singleRooms))"

text \<open>The rows of the input whose room has the base room of row \<open>i\<close>: the slots of
  the room group of row \<open>i\<close>, in the order of the input.\<close>

definition groupRows :: "entry list \<Rightarrow> nat \<Rightarrow> nat list" where
  "groupRows data i = filter (\<lambda>k. keyAt data k = keyAt data i) [0..<length data]"

text \<open>
  The invariants of the loops, used in the proofs below. A slot is well indexed when
  its index is a row of the input and its label is the room of that row.
\<close>

definition wellIndexed :: "jsstring list \<Rightarrow> roomInfo \<Rightarrow> bool" where
  "wellIndexed rs ri \<longleftrightarrow> originalIndex ri < length rs \<and> fullRoom ri = rs ! originalIndex ri"

text \<open>
  The result array and the overflow list \<open>u\<close> after the shared groups \<open>seen\<close>: only
  slots of these groups are filled, each filled entry carries the room of its row, the
  overflow slots are empty, and every group seen is either in the overflow list or filled
  with one gender.
\<close>

definition slotsInvariant ::
    "jsstring list \<Rightarrow> roomInfo list list \<Rightarrow> roomInfo list \<Rightarrow> entry option list \<Rightarrow> bool" where
  "slotsInvariant rs seen u res \<longleftrightarrow>
     length res = length rs \<and>
     (\<forall>i<length rs. i \<notin> originalIndex ` set (concat seen) \<longrightarrow> res ! i = None) \<and>
     (\<forall>i<length rs. \<forall>x. res ! i = Some x \<longrightarrow> roomNumber x = rs ! i) \<and>
     set u \<subseteq> set (concat seen) \<and>
     (\<forall>ri\<in>set u. res ! originalIndex ri = None) \<and>
     (\<forall>g\<in>set seen.
        set g \<subseteq> set u \<or>
        (set g \<inter> set u = {} \<and>
         (\<exists>gen. (gen = male \<or> gen = female) \<and>
            (\<forall>ri\<in>set g. \<exists>x. res ! originalIndex ri = Some x \<and> gender x = gen))))"

text \<open>The pools hold employees of their gender only, and the employees taken from the
  pools are as many as the slots of the groups seen that did not go to the overflow list.\<close>

definition poolsInvariant :: "nat \<Rightarrow> roomInfo list list \<Rightarrow> lottery \<Rightarrow> bool" where
  "poolsInvariant pooled seen st \<longleftrightarrow>
     (\<forall>e\<in>set (maleEmployees st). gender e = male) \<and>
     (\<forall>e\<in>set (femaleEmployees st). gender e = female) \<and>
     length (maleEmployees st) + length (femaleEmployees st) + length (concat seen) =
       pooled + length (unassignedSharedRooms st)"

text \<open>The object \<open>roomGroups\<close> after the first \<open>m\<close> rooms: the groups hold the slots of
  these rooms, each under the base room of its members, and no key occurs twice.\<close>

definition groupsInvariant :: "jsstring list \<Rightarrow> nat \<Rightarrow> roomInfo list jsobject \<Rightarrow> bool" where
  "groupsInvariant rs m grp \<longleftrightarrow>
     mset (concat (map snd grp)) = mset (map (infoAt rs) [0..<m]) \<and>
     (\<forall>(k, l)\<in>set grp. l \<noteq> [] \<and> (\<forall>ri\<in>set l. baseRoom (parseRoomNumber (fullRoom ri)) = k)) \<and>
     distinct (map fst grp)"

section \<open>Example inputs\<close>

definition row :: "string \<Rightarrow> jsstring \<Rightarrow> string \<Rightarrow> entry" where
  "row i g r = \<lparr>employeeId = js i, gender = g, roomNumber = js r\<rparr>"

text \<open>A random source that always returns \<open>0\<close>, and one that always returns
  \<open>1/2\<close>.\<close>

definition zeros :: rng where
  "zeros = sconst (Draw 0 0)"

definition halves :: rng where
  "halves = sconst (Draw 1 0)"

text \<open>One apartment with two bedrooms, a man and a woman.\<close>

definition mixedPair :: "entry list" where
  "mixedPair = [row ''E1'' male ''S-1-1-101-A'', row ''E2'' female ''S-1-1-101-B'']"

text \<open>One apartment with two bedrooms and a single room; two men and a woman.\<close>

definition twoMen :: "entry list" where
  "twoMen = [row ''E1'' male ''S-1-1-101-A'', row ''E2'' male ''S-1-1-101-B'',
             row ''E3'' female ''R2'']"

text \<open>The same room label in two rows.\<close>

definition sameLabel :: "entry list" where
  "sameLabel = [row ''E1'' male ''R1'', row ''E2'' male ''R1'']"

text \<open>A gender that the reader could not normalise.\<close>

definition unknownGender :: "entry list" where
  "unknownGender = [row ''E1'' (js ''X'') ''R1'', row ''E2'' male ''R2'']"

text \<open>A caller that makes an array of entry objects, and a sequence of events: the timer
  fires once, the caller then empties the array it passed to \<open>init\<close> and overwrites
  its first object, and the lottery is run.\<close>

definition callerData :: "entry list \<Rightarrow> 'cb windowS \<Rightarrow> ref \<times> 'cb windowS" where
  "callerData ds w =
     (let (rs, s1) = newObjects (map Some ds) (heap w);
          (data, s2) = newArray rs s1
      in (data, w\<lparr>heap := s2\<rparr>))"

definition exampleEvents :: "string eventS list" where
  "exampleEvents =
     [StartRollingS ''f'', TickS 1, WriteArray 2 [], WriteObject 0 (row ''E9'' female ''R9''),
      StopRollingS ''g'', GetCurrentDataS]"

section \<open>Properties of the room number parser\<close>

lemma split_not_Nil: "split sep s \<noteq> []"
  by (induction s) (auto simp: Let_def)

lemma join_Cons: "ps \<noteq> [] \<Longrightarrow> join sep (p # ps) = p @ sep # join sep ps"
  by (cases ps) auto

text \<open>Joining the pieces gives the string back.\<close>

lemma join_split: "join sep (split sep s) = s"
proof (induction s)
  case Nil
  show ?case by simp
next
  case (Cons c s)
  obtain p ps where ps: "split sep s = p # ps"
    using split_not_Nil [of sep s] by (cases "split sep s") auto
  show ?case
  proof (cases "c = sep")
    case True
    then show ?thesis using Cons by (simp add: Let_def join_Cons split_not_Nil)
  next
    case False
    have "join sep ((c # p) # ps) = c # join sep (p # ps)"
      by (cases ps) auto
    then show ?thesis using False Cons ps by (simp add: Let_def)
  qed
qed

text \<open>There is one piece more than there are separators.\<close>

lemma length_split: "length (split sep s) = Suc (count_list s sep)"
proof (induction s)
  case Nil
  show ?case by simp
next
  case (Cons c s)
  then show ?case
    using split_not_Nil [of sep s] by (cases "split sep s") (auto simp: Let_def)
qed

lemma split_no_sep: "sep \<notin> set t \<Longrightarrow> split sep t = [t]"
  by (induction t) (auto simp: Let_def)

lemma split_append_sep: "split sep (b @ sep # t) = split sep b @ split sep t"
proof (induction b)
  case Nil
  show ?case by (simp add: Let_def)
next
  case (Cons c b)
  then show ?case
    using split_not_Nil [of sep b] by (cases "split sep b") (auto simp: Let_def)
qed

lemma join_snoc: "ps \<noteq> [] \<Longrightarrow> join sep (ps @ [p]) = join sep ps @ sep # p"
proof (induction ps)
  case Nil
  then show ?case by simp
next
  case (Cons q ps)
  then show ?case by (cases ps) (auto simp: join_Cons)
qed

lemma isLetter_not_dash: "isLetter c \<Longrightarrow> c \<noteq> dash"
  by (auto simp: isLetter_def dash_def)

lemma isSingleLetter_iff: "isSingleLetter u \<longleftrightarrow> (\<exists>c. u = [c] \<and> isLetter c)"
  by (cases u rule: isSingleLetter.cases) auto

text \<open>
  The parser in terms of the string alone: a bedroom \<open>u\<close> is split off exactly when
  the room number is the base room, a dash and one letter, and the base room holds at
  least three dashes (so that there are more than four segments).
\<close>

lemma parse_suffix_iff:
  "parseRoomNumber s = \<lparr>baseRoom = b, bedroom = Some u\<rparr> \<longleftrightarrow>
   (\<exists>c. isLetter c \<and> u = [c] \<and> s = b @ [dash, c] \<and> 3 \<le> count_list b dash)"
proof
  assume L: "parseRoomNumber s = \<lparr>baseRoom = b, bedroom = Some u\<rparr>"
  let ?ps = "split dash s"
  from L have c: "isSingleLetter (last ?ps)" "4 < length ?ps"
    and b: "b = join dash (butlast ?ps)" and u: "u = last ?ps"
    by (auto simp: parseRoomNumber_def Let_def split: if_splits)
  from c(1) obtain c where cc: "last ?ps = [c]" "isLetter c"
    by (auto simp: isSingleLetter_iff)
  have ne: "butlast ?ps \<noteq> []" using c(2) by (cases ?ps rule: rev_cases) auto
  have "?ps = butlast ?ps @ [last ?ps]" using split_not_Nil by simp
  then have "join dash ?ps = join dash (butlast ?ps) @ dash # last ?ps"
    using join_snoc [OF ne, of dash "last ?ps"] by simp
  then have s: "s = b @ [dash, c]" using b cc by (simp add: join_split)
  have "count_list s dash = count_list b dash + 1"
    using isLetter_not_dash [OF cc(2)] by (simp add: s)
  then have "3 \<le> count_list b dash" using c(2) by (simp add: length_split)
  then show "\<exists>c. isLetter c \<and> u = [c] \<and> s = b @ [dash, c] \<and> 3 \<le> count_list b dash"
    using cc u s by auto
next
  assume "\<exists>c. isLetter c \<and> u = [c] \<and> s = b @ [dash, c] \<and> 3 \<le> count_list b dash"
  then obtain c where c: "isLetter c" "u = [c]" "s = b @ [dash, c]" "3 \<le> count_list b dash"
    by auto
  have sp: "split dash s = split dash b @ [[c]]"
    using isLetter_not_dash [OF c(1)] by (simp add: c(3) split_append_sep split_no_sep)
  show "parseRoomNumber s = \<lparr>baseRoom = b, bedroom = Some u\<rparr>"
    using c(1,2,4) by (simp add: parseRoomNumber_def sp Let_def length_split join_split)
qed

text \<open>
  Claim C6. \<open>parseRoomNumber\<close> splits the room number at the dashes; when the last
  segment is a single letter and there are more than four segments, the bedroom is the
  last segment and the base room is the other segments joined again; otherwise the base
  room is the whole room number and there is no bedroom. The second conjunct says the
  same without \<open>split\<close> and \<open>join\<close>. The three examples of the specification follow
  (U+5357 is the first character of the first two). The function is total: it is
  defined by terminating recursion on every string.
\<close>

theorem parseRoomNumber_spec:
  "parseRoomNumber roomSlot =
     (if isSingleLetter (last (split dash roomSlot)) \<and> 4 < length (split dash roomSlot)
      then \<lparr>baseRoom = join dash (butlast (split dash roomSlot)),
            bedroom = Some (last (split dash roomSlot))\<rparr>
      else \<lparr>baseRoom = roomSlot, bedroom = None\<rparr>) \<and>
   (parseRoomNumber roomSlot = \<lparr>baseRoom = b, bedroom = Some u\<rparr> \<longleftrightarrow>
      (\<exists>c. isLetter c \<and> u = [c] \<and> roomSlot = b @ [dash, c] \<and> 3 \<le> count_list b dash)) \<and>
   parseRoomNumber (0x5357 # js ''-16-1-1001-A'') =
     \<lparr>baseRoom = 0x5357 # js ''-16-1-1001'', bedroom = Some (js ''A'')\<rparr> \<and>
   parseRoomNumber (0x5357 # js ''-16-1-1001'') =
     \<lparr>baseRoom = 0x5357 # js ''-16-1-1001'', bedroom = None\<rparr> \<and>
   parseRoomNumber (js ''R2'') = \<lparr>baseRoom = js ''R2'', bedroom = None\<rparr>"
proof (intro conjI)
  show "parseRoomNumber roomSlot =
     (if isSingleLetter (last (split dash roomSlot)) \<and> 4 < length (split dash roomSlot)
      then \<lparr>baseRoom = join dash (butlast (split dash roomSlot)),
            bedroom = Some (last (split dash roomSlot))\<rparr>
      else \<lparr>baseRoom = roomSlot, bedroom = None\<rparr>)"
    by (simp add: parseRoomNumber_def Let_def)
  show "parseRoomNumber roomSlot = \<lparr>baseRoom = b, bedroom = Some u\<rparr> \<longleftrightarrow>
      (\<exists>c. isLetter c \<and> u = [c] \<and> roomSlot = b @ [dash, c] \<and> 3 \<le> count_list b dash)"
    by (rule parse_suffix_iff)
  show "parseRoomNumber (0x5357 # js ''-16-1-1001-A'') =
     \<lparr>baseRoom = 0x5357 # js ''-16-1-1001'', bedroom = Some (js ''A'')\<rparr>"
    by (simp add: parseRoomNumber_def js_def dash_def isLetter_def)
  show "parseRoomNumber (0x5357 # js ''-16-1-1001'') =
     \<lparr>baseRoom = 0x5357 # js ''-16-1-1001'', bedroom = None\<rparr>"
    by (simp add: parseRoomNumber_def js_def dash_def isLetter_def)
  show "parseRoomNumber (js ''R2'') = \<lparr>baseRoom = js ''R2'', bedroom = None\<rparr>"
    by (simp add: parseRoomNumber_def js_def dash_def isLetter_def)
qed

theorem parseRoomNumber_spec_witness:
  "parseRoomNumber (js ''N-16-1-1001-b'') =
     \<lparr>baseRoom = js ''N-16-1-1001'', bedroom = Some (js ''b'')\<rparr> \<and>
   parseRoomNumber (js ''16-1-1001-b'') =
     \<lparr>baseRoom = js ''16-1-1001-b'', bedroom = None\<rparr>"
  using parseRoomNumber_spec [of "js ''N-16-1-1001-b''"]
    parseRoomNumber_spec [of "js ''16-1-1001-b''"]
  by (simp add: js_def dash_def isLetter_def)

section \<open>Properties of the shuffle\<close>

lemma floorTimes_less: "0 < m \<Longrightarrow> floorTimes d m < m"
proof (cases d)
  case (Draw n k)
  assume "0 < m"
  have "n * m < m * (n + k + 1)" using \<open>0 < m\<close> by (simp add: algebra_simps)
  then have "(n * m) div (n + k + 1) < m"
    by (rule less_mult_imp_div_less)
  then show ?thesis using Draw by simp
qed

text \<open>Every step of the loop swaps two elements of the array, so the loop permutes it.\<close>

lemma shuffleFrom_mset:
  "i < length xs \<or> i = 0 \<Longrightarrow> mset (fst (shuffleFrom i rnd xs)) = mset xs"
proof (induction i arbitrary: rnd xs)
  case 0
  show ?case by simp
next
  case (Suc i)
  let ?j = "floorTimes (shd rnd) (Suc i + 1)"
  have j: "?j < Suc i + 1" by (rule floorTimes_less) simp
  then have jl: "?j < length xs" using Suc.prems by simp
  let ?xs = "xs[Suc i := xs ! ?j, ?j := xs ! Suc i]"
  have m: "mset ?xs = mset xs" using Suc.prems jl by (simp add: mset_swap)
  have "mset (fst (shuffleFrom i (stl rnd) ?xs)) = mset ?xs"
    by (rule Suc.IH) (use Suc.prems in simp)
  then show ?case using m by (simp add: Let_def)
qed

lemma shuffleArray_mset: "mset (fst (shuffleArray rnd xs)) = mset xs"
  unfolding shuffleArray_def by (rule shuffleFrom_mset) (cases xs; simp)

lemma shuffleArray_set: "set (fst (shuffleArray rnd xs)) = set xs"
  using shuffleArray_mset [of rnd xs] by (metis set_mset_mset)

lemma shuffleArray_length: "length (fst (shuffleArray rnd xs)) = length xs"
  using shuffleArray_mset [of rnd xs] by (metis size_mset)

section \<open>A shortage in the loop over the shared rooms\<close>

lemma selectPool_None:
  "selectPool st k = (None, rnd) \<longleftrightarrow>
   (length (maleEmployees st) < k \<and> length (femaleEmployees st) < k \<and> rnd = random st)"
  by (auto simp: selectPool_def)

lemma sharedStep_unassigned:
  "sharedStep st g = Inr st' \<Longrightarrow>
   set (unassignedSharedRooms st) \<subseteq> set (unassignedSharedRooms st')"
  by (auto simp: sharedStep_def Let_def
           split: prod.splits option.splits pool.splits sum.splits)

lemma sharedLoop_unassigned:
  "sharedLoop gs st = Inr st' \<Longrightarrow>
   set (unassignedSharedRooms st) \<subseteq> set (unassignedSharedRooms st')"
proof (induction gs arbitrary: st)
  case Nil
  then show ?case by simp
next
  case (Cons g gs)
  from Cons.prems obtain st1 where 1: "sharedStep st g = Inr st1" and 2: "sharedLoop gs st1 = Inr st'"
    by (auto split: sum.splits)
  show ?case using sharedStep_unassigned [OF 1] Cons.IH [OF 2] by blast
qed

section \<open>Evaluating the lottery on the examples\<close>

lemmas lottery_eval = performLottery_def allocation_def sharedPhase_def singlePhase_def
  analyseRooms_def addRoom_def parseRoomNumber_def dash_def js_def isLetter_def objectEntries_def
  isArrayIndex_def isDigit_def decimalValue_def shuffleArray_def male_def female_def
  objectPrototypeKeys_def sharedStep_def selectPool_def arraySet_def arrayGet_def assignment_def
  Let_def employees_def employeeOf_def rooms_def allSingleRooms_def row_def zeros_def halves_def
  overflow_def

lemma performLottery_twoMen:
  "performLottery zeros twoMen =
     Inr ([row ''E1'' male ''S-1-1-101-B'', row ''E3'' female ''R2'',
           row ''E2'' male ''S-1-1-101-A''], zeros)"
  by (simp add: lottery_eval twoMen_def)

section \<open>Properties of the roll session\<close>

text \<open>
  Claim C8. \<open>stopRolling\<close> while not rolling returns \<open>currentData\<close> and leaves the
  window as it is. Whenever a call of \<open>stopRolling\<close> has returned an array, a second
  call right after it returns the same array and changes nothing. \<open>startRolling\<close>
  while rolling changes nothing; in particular it starts no timer.
\<close>

theorem invalid_calls_are_noops:
  "(\<not> isRolling (LotteryModule w) \<longrightarrow>
      stopRolling updateCallback w = (w, Inr (currentData (LotteryModule w)))) \<and>
   (stopRolling updateCallback w = (w1, Inr r1) \<longrightarrow>
      stopRolling updateCallback2 w1 = (w1, Inr r1)) \<and>
   (isRolling (LotteryModule w) \<longrightarrow> startRolling updateCallback w = w)"
proof (intro conjI impI)
  assume "\<not> isRolling (LotteryModule w)"
  then show "stopRolling updateCallback w = (w, Inr (currentData (LotteryModule w)))"
    by (simp add: stopRolling_def)
next
  assume s: "stopRolling updateCallback w = (w1, Inr r1)"
  have "\<not> isRolling (LotteryModule w1) \<and> currentData (LotteryModule w1) = r1"
    using s
    by (auto simp: stopRolling_def Let_def clearInterval_def
             split: if_splits option.splits sum.splits prod.splits)
  then show "stopRolling updateCallback2 w1 = (w1, Inr r1)"
    by (simp add: stopRolling_def)
next
  assume "isRolling (LotteryModule w)"
  then show "startRolling updateCallback w = w"
    by (simp add: startRolling_def)
qed

theorem invalid_calls_are_noops_witness:
  "stopRolling ''g'' (init twoMen (loaded zeros)) = (init twoMen (loaded zeros), Inr twoMen) \<and>
   snd (stopRolling ''g'' (startRolling ''f'' (init twoMen (loaded zeros)))) =
     Inr [row ''E1'' male ''S-1-1-101-B'', row ''E3'' female ''R2'',
          row ''E2'' male ''S-1-1-101-A''] \<and>
   snd (stopRolling ''h'' (fst (stopRolling ''g'' (startRolling ''f'' (init twoMen (loaded zeros)))))) =
     Inr [row ''E1'' male ''S-1-1-101-B'', row ''E3'' female ''R2'',
          row ''E2'' male ''S-1-1-101-A''] \<and>
   startRolling ''h'' (startRolling ''f'' (init twoMen (loaded zeros))) =
     startRolling ''f'' (init twoMen (loaded zeros))"
proof -
  let ?w = "init twoMen (loaded zeros) :: string window"
  let ?r = "startRolling ''f'' ?w"
  let ?res = "[row ''E1'' male ''S-1-1-101-B'', row ''E3'' female ''R2'',
          row ''E2'' male ''S-1-1-101-A'']"
  have a: "\<not> isRolling (LotteryModule ?w)"
    by (simp add: init_def loaded_def)
  have a': "currentData (LotteryModule ?w) = twoMen"
    by (simp add: init_def loaded_def)
  have b: "isRolling (LotteryModule ?r)"
    by (simp add: init_def loaded_def startRolling_def)
  have c: "snd (stopRolling ''g'' ?r) = Inr ?res"
    by (simp add: init_def loaded_def startRolling_def stopRolling_def clearInterval_def
        performLottery_twoMen)
  have d: "stopRolling ''g'' ?r = (fst (stopRolling ''g'' ?r), Inr ?res)"
    using c by (simp add: prod_eq_iff)
  have 1: "stopRolling ''g'' ?w = (?w, Inr twoMen)"
    using invalid_calls_are_noops [of ?w "''g''", THEN conjunct1] a a' by simp
  have 2: "stopRolling ''h'' (fst (stopRolling ''g'' ?r)) = (fst (stopRolling ''g'' ?r), Inr ?res)"
    using invalid_calls_are_noops [of ?r "''g''" "fst (stopRolling ''g'' ?r)" ?res "''h''",
        THEN conjunct2, THEN conjunct1] d
    by (rule mp)
  have 3: "startRolling ''h'' ?r = ?r"
    using invalid_calls_are_noops [of ?r "''h''", THEN conjunct2, THEN conjunct2] b
    by (rule mp)
  show ?thesis
    using 1 2 3 c by simp
qed

text \<open>
  Claim C7. \<open>init\<close> stores the entries in \<open>originalData\<close> and \<open>currentData\<close> and sets
  \<open>isRolling\<close> to false, but it does not clear the timer that \<open>startRolling\<close> set:
  after \<open>init\<close>, \<open>startRolling\<close>, \<open>init\<close> the timer with handle \<open>1\<close> is still
  active, and when it fires it calls the callback with rows drawn from the first data
  set. \<open>stopRolling\<close> does not clear it either (it returns at once, since
  \<open>isRolling\<close> is false), and a second \<open>startRolling\<close> sets a second timer.
\<close>

theorem init_while_rolling_keeps_timer:
  "\<not> isRolling (LotteryModule (init d2 (startRolling cb (init d1 (loaded rnd))))) \<and>
   originalData (LotteryModule (init d2 (startRolling cb (init d1 (loaded rnd))))) = d2 \<and>
   currentData (LotteryModule (init d2 (startRolling cb (init d1 (loaded rnd))))) = d2 \<and>
   intervals (init d2 (startRolling cb (init d1 (loaded rnd)))) = [(1, d1, cb)] \<and>
   calls (tick 1 (init d2 (startRolling cb (init d1 (loaded rnd))))) =
     [(cb, fst (randomRows d1 d1 rnd), True)] \<and>
   intervals (fst (stopRolling cb (init d2 (startRolling cb (init d1 (loaded rnd)))))) =
     [(1, d1, cb)] \<and>
   intervals (startRolling cb2 (init d2 (startRolling cb (init d1 (loaded rnd))))) =
     [(1, d1, cb), (2, d2, cb2)]"
  by (simp add: init_def startRolling_def loaded_def tick_def stopRolling_def split: prod.splits)

section \<open>The writes of the two loops\<close>

lemma employeeOf_assignment: "employeeOf (assignment e ri) = e"
  by (simp add: employeeOf_def assignment_def)

lemma gender_assignment: "gender (assignment e ri) = gender e"
  by (simp add: assignment_def)

lemma roomNumber_assignment: "roomNumber (assignment e ri) = fullRoom ri"
  by (simp add: assignment_def)

lemma assignGroup_eq:
  "assignGroup g pool res =
     (if length g \<le> length pool
      then Inr (drop (length g) pool, writeAll (zip g pool) res)
      else Inl TypeError)"
proof (induction g arbitrary: pool res)
  case Nil
  show ?case by simp
next
  case (Cons ri g)
  show ?case by (cases pool) (simp_all add: Cons.IH)
qed

lemma singleLoop_eq:
  "singleLoop (map Some slots) rem res = Inr (writeAll (zip slots rem) res)"
proof (induction slots arbitrary: rem res)
  case Nil
  show ?case by simp
next
  case (Cons ri slots)
  show ?case
  proof (cases rem)
    case Nil
    then show ?thesis using Cons.IH [of "[]" res] by simp
  next
    case (Cons e rem')
    then show ?thesis by (simp add: Cons.IH)
  qed
qed

lemma filled_append: "filled (xs @ ys) = filled xs @ filled ys"
  by (induction xs rule: filled.induct) auto

lemma filled_replicate_None: "filled (replicate k None) = []"
  by (induction k) auto

lemma length_filled_le: "length (filled xs) \<le> length xs"
  by (induction xs rule: filled.induct) auto

lemma length_filled_all: "(\<forall>i<length xs. xs ! i \<noteq> None) \<Longrightarrow> length (filled xs) = length xs"
proof (induction xs rule: filled.induct)
  case 1
  show ?case by simp
next
  case (2 rs)
  then show ?case by auto
next
  case (3 r rs)
  have "\<forall>i<length rs. rs ! i \<noteq> None"
  proof (intro allI impI)
    fix i assume "i < length rs"
    then show "rs ! i \<noteq> None" using "3.prems" [rule_format, of "Suc i"] by simp
  qed
  then show ?case using "3.IH" by simp
qed

lemma set_filled: "set (filled xs) = {x. Some x \<in> set xs}"
  by (induction xs rule: filled.induct) auto

text \<open>A write adds at most the written entry to the filled entries.\<close>

lemma filled_arraySet:
  "mset (filled (arraySet res i v)) \<subseteq># add_mset v (mset (filled res))"
proof (cases "i < length res")
  case True
  have res: "res = take i res @ [res ! i] @ drop (Suc i) res"
    using True by (simp add: id_take_nth_drop)
  have upd: "res[i := Some v] = take i res @ [Some v] @ drop (Suc i) res"
    using True by (simp add: upd_conv_take_nth_drop)
  have "filled (res[i := Some v]) =
        filled (take i res) @ filled [Some v] @ filled (drop (Suc i) res)"
    by (simp only: upd filled_append)
  then have "mset (filled (res[i := Some v])) =
        mset (filled (take i res)) + {#v#} + mset (filled (drop (Suc i) res))"
    by simp
  moreover have "filled res = filled (take i res) @ filled [res ! i] @ filled (drop (Suc i) res)"
    using res by (metis filled_append)
  then have "mset (filled res) =
        mset (filled (take i res)) + mset (filled [res ! i]) + mset (filled (drop (Suc i) res))"
    by simp
  ultimately show ?thesis using True by (simp add: arraySet_def)
next
  case False
  then show ?thesis by (simp add: arraySet_def filled_append filled_replicate_None)
qed

lemma writeAll_employees:
  "mset (map employeeOf (filled (writeAll ps res))) \<subseteq>#
   mset (map employeeOf (filled res)) + mset (map snd ps)"
proof (induction ps arbitrary: res)
  case Nil
  show ?case by simp
next
  case (Cons p ps)
  obtain ri e where p: "p = (ri, e)" by (cases p)
  let ?res = "arraySet res (originalIndex ri) (assignment e ri)"
  have "mset (map employeeOf (filled (writeAll ps ?res))) \<subseteq>#
        mset (map employeeOf (filled ?res)) + mset (map snd ps)"
    by (rule Cons.IH)
  moreover have "mset (map employeeOf (filled ?res)) \<subseteq>#
        add_mset e (mset (map employeeOf (filled res)))"
    using image_mset_subseteq_mono [OF filled_arraySet [of res "originalIndex ri" "assignment e ri"], of employeeOf]
    by (simp add: employeeOf_assignment)
  ultimately have "mset (map employeeOf (filled (writeAll ps ?res))) \<subseteq>#
        add_mset e (mset (map employeeOf (filled res))) + mset (map snd ps)"
    by (meson subset_mset.add_right_mono subset_mset.order_trans)
  then show ?case by (simp add: p)
qed

text \<open>Writes at indices inside the array keep its length, leave the other elements as
  they are, and never empty an element.\<close>

lemma arraySet_nth:
  "i < length res \<Longrightarrow> j < length res \<Longrightarrow>
   arraySet res i v ! j = (if j = i then Some v else res ! j)"
  by (simp add: arraySet_def)

lemma arraySet_length: "i < length res \<Longrightarrow> length (arraySet res i v) = length res"
  by (simp add: arraySet_def)

lemma writeAll_length:
  "\<forall>p\<in>set ps. originalIndex (fst p) < length res \<Longrightarrow> length (writeAll ps res) = length res"
proof (induction ps arbitrary: res)
  case Nil
  show ?case by simp
next
  case (Cons p ps)
  obtain ri e where p: "p = (ri, e)" by (cases p)
  show ?case using Cons.prems Cons.IH [of "arraySet res (originalIndex ri) (assignment e ri)"]
    by (simp add: p arraySet_length)
qed

lemma writeAll_frame:
  assumes "\<forall>p\<in>set ps. originalIndex (fst p) < length res"
    and "i < length res" and "i \<notin> originalIndex ` fst ` set ps"
  shows "writeAll ps res ! i = res ! i"
  using assms
proof (induction ps arbitrary: res)
  case Nil
  show ?case by simp
next
  case (Cons p ps)
  obtain ri e where p: "p = (ri, e)" by (cases p)
  let ?res = "arraySet res (originalIndex ri) (assignment e ri)"
  have "writeAll ps ?res ! i = ?res ! i"
    by (rule Cons.IH) (use Cons.prems p in \<open>auto simp: arraySet_length\<close>)
  then show ?case using Cons.prems by (auto simp: p arraySet_nth)
qed

lemma writeAll_invariant:
  assumes "\<forall>p\<in>set ps. originalIndex (fst p) < length res"
    and "\<forall>p\<in>set ps. Q (originalIndex (fst p)) (assignment (snd p) (fst p))"
    and "\<forall>i<length res. \<forall>x. res ! i = Some x \<longrightarrow> Q i x"
    and "i < length res" and "writeAll ps res ! i = Some x"
  shows "Q i x"
  using assms
proof (induction ps arbitrary: res)
  case Nil
  then show ?case by simp
next
  case (Cons p ps)
  obtain ri e where p: "p = (ri, e)" by (cases p)
  let ?res = "arraySet res (originalIndex ri) (assignment e ri)"
  show ?case
  proof (rule Cons.IH [of ?res])
    show "\<forall>p\<in>set ps. originalIndex (fst p) < length ?res"
      using Cons.prems(1) by (simp add: p arraySet_length)
    show "\<forall>p\<in>set ps. Q (originalIndex (fst p)) (assignment (snd p) (fst p))"
      using Cons.prems(2) by simp
    show "\<forall>i<length ?res. \<forall>x. ?res ! i = Some x \<longrightarrow> Q i x"
      using Cons.prems(1,2,3) by (auto simp: p arraySet_length arraySet_nth split: if_splits)
    show "i < length ?res" using Cons.prems(1,4) by (simp add: p arraySet_length)
    show "writeAll ps ?res ! i = Some x" using Cons.prems(5) by (simp add: p)
  qed
qed

lemma writeAll_mono:
  assumes "\<forall>p\<in>set ps. originalIndex (fst p) < length res"
    and "i < length res" and "res ! i \<noteq> None"
  shows "writeAll ps res ! i \<noteq> None"
  using assms
proof (induction ps arbitrary: res)
  case Nil
  then show ?case by simp
next
  case (Cons p ps)
  obtain ri e where p: "p = (ri, e)" by (cases p)
  let ?res = "arraySet res (originalIndex ri) (assignment e ri)"
  have "writeAll ps ?res ! i \<noteq> None"
    by (rule Cons.IH) (use Cons.prems p in \<open>auto simp: arraySet_length arraySet_nth\<close>)
  then show ?case by (simp add: p)
qed

lemma writeAll_written:
  assumes "\<forall>p\<in>set ps. originalIndex (fst p) < length res" and "p \<in> set ps"
  shows "writeAll ps res ! originalIndex (fst p) \<noteq> None"
  using assms
proof (induction ps arbitrary: res)
  case Nil
  then show ?case by simp
next
  case (Cons q ps)
  obtain ri e where q: "q = (ri, e)" by (cases q)
  let ?res = "arraySet res (originalIndex ri) (assignment e ri)"
  have len: "\<forall>p\<in>set ps. originalIndex (fst p) < length ?res"
    using Cons.prems(1) by (simp add: q arraySet_length)
  show ?case
  proof (cases "p = q")
    case True
    have "writeAll ps ?res ! originalIndex ri \<noteq> None"
      by (rule writeAll_mono [OF len]) (use Cons.prems(1) q in \<open>auto simp: arraySet_length arraySet_nth\<close>)
    then show ?thesis using True by (simp add: q)
  next
    case False
    then have "p \<in> set ps" using Cons.prems(2) by simp
    from Cons.IH [OF len this] show ?thesis by (simp add: q)
  qed
qed

section \<open>The loop over the shared rooms\<close>

text \<open>An iteration of the loop never raises, and does one of three things.\<close>

lemma sharedStep_cases:
  obtains
    (shortage) "length (maleEmployees st) < length g" "length (femaleEmployees st) < length g"
      "sharedStep st g = Inr (st\<lparr>unassignedSharedRooms := unassignedSharedRooms st @ g\<rparr>)"
  | (males) rnd' where "length g \<le> length (maleEmployees st)"
      "sharedStep st g = Inr (st\<lparr>maleEmployees := drop (length g) (maleEmployees st),
         result := writeAll (zip g (maleEmployees st)) (result st), random := rnd'\<rparr>)"
  | (females) rnd' where "length g \<le> length (femaleEmployees st)"
      "sharedStep st g = Inr (st\<lparr>femaleEmployees := drop (length g) (femaleEmployees st),
         result := writeAll (zip g (femaleEmployees st)) (result st), random := rnd'\<rparr>)"
proof -
  consider (a) "length g \<le> length (maleEmployees st)" "length g \<le> length (femaleEmployees st)"
      "lessHalf (shd (random st))"
    | (b) "length g \<le> length (maleEmployees st)" "length g \<le> length (femaleEmployees st)"
      "\<not> lessHalf (shd (random st))"
    | (c) "length g \<le> length (maleEmployees st)" "\<not> length g \<le> length (femaleEmployees st)"
    | (d) "\<not> length g \<le> length (maleEmployees st)" "length g \<le> length (femaleEmployees st)"
    | (e) "\<not> length g \<le> length (maleEmployees st)" "\<not> length g \<le> length (femaleEmployees st)"
    by blast
  then show ?thesis
  proof cases
    case a
    then show ?thesis
      by (intro males [of "stl (random st)"]) (simp_all add: sharedStep_def selectPool_def assignGroup_eq)
  next
    case b
    then show ?thesis
      by (intro females [of "stl (random st)"]) (simp_all add: sharedStep_def selectPool_def assignGroup_eq)
  next
    case c
    then show ?thesis
      by (intro males [of "random st"]) (simp_all add: sharedStep_def selectPool_def assignGroup_eq)
  next
    case d
    then show ?thesis
      by (intro females [of "random st"]) (simp_all add: sharedStep_def selectPool_def assignGroup_eq)
  next
    case e
    then show ?thesis
      by (intro shortage) (simp_all add: sharedStep_def selectPool_def)
  qed
qed

lemma map_snd_zip_le: "length xs \<le> length ys \<Longrightarrow> map snd (zip xs ys) = take (length xs) ys"
  by (simp add: map_snd_zip_take min_def)

lemma map_fst_zip_le: "length xs \<le> length ys \<Longrightarrow> map fst (zip xs ys) = xs"
  by (simp add: map_fst_zip_take min_def)

text \<open>The employees in the result and in the two pools together: an iteration never
  adds to them.\<close>

lemma mset_pool_step:
  fixes W :: "'a multiset"
  assumes "W \<subseteq># F + T" and "T + D = M"
  shows "W + D \<subseteq># F + M"
proof -
  have "W + D \<subseteq># F + T + D" using assms(1) by (rule subset_mset.add_right_mono)
  then show ?thesis using assms(2) by (simp add: add.assoc)
qed

lemma sharedStep_employees:
  assumes "sharedStep st g = Inr st'"
  shows "mset (map employeeOf (filled (result st'))) + mset (maleEmployees st') +
           mset (femaleEmployees st') \<subseteq>#
         mset (map employeeOf (filled (result st))) + mset (maleEmployees st) +
           mset (femaleEmployees st)"
proof (cases rule: sharedStep_cases [of st g])
  case shortage
  then show ?thesis using assms by simp
next
  case (males rnd')
  let ?m = "maleEmployees st"
  have "mset (map employeeOf (filled (writeAll (zip g ?m) (result st)))) \<subseteq>#
        mset (map employeeOf (filled (result st))) + mset (take (length g) ?m)"
    using writeAll_employees [of "zip g ?m" "result st"] males(1) by (simp add: map_snd_zip_le)
  moreover have "mset (take (length g) ?m) + mset (drop (length g) ?m) = mset ?m"
    by (metis append_take_drop_id mset_append)
  ultimately have "mset (map employeeOf (filled (writeAll (zip g ?m) (result st)))) +
        mset (drop (length g) ?m) \<subseteq># mset (map employeeOf (filled (result st))) + mset ?m"
    by (rule mset_pool_step)
  moreover have "st' = st\<lparr>maleEmployees := drop (length g) ?m,
      result := writeAll (zip g ?m) (result st), random := rnd'\<rparr>"
    using assms males(2) by simp
  ultimately show ?thesis by simp
next
  case (females rnd')
  let ?m = "femaleEmployees st"
  have "mset (map employeeOf (filled (writeAll (zip g ?m) (result st)))) \<subseteq>#
        mset (map employeeOf (filled (result st))) + mset (take (length g) ?m)"
    using writeAll_employees [of "zip g ?m" "result st"] females(1) by (simp add: map_snd_zip_le)
  moreover have "mset (take (length g) ?m) + mset (drop (length g) ?m) = mset ?m"
    by (metis append_take_drop_id mset_append)
  ultimately have "mset (map employeeOf (filled (writeAll (zip g ?m) (result st)))) +
        mset (drop (length g) ?m) \<subseteq># mset (map employeeOf (filled (result st))) + mset ?m"
    by (rule mset_pool_step)
  moreover have "st' = st\<lparr>femaleEmployees := drop (length g) ?m,
      result := writeAll (zip g ?m) (result st), random := rnd'\<rparr>"
    using assms females(2) by simp
  ultimately show ?thesis by simp
qed

lemma sharedLoop_employees:
  assumes "sharedLoop gs st = Inr st'"
  shows "mset (map employeeOf (filled (result st'))) + mset (maleEmployees st') +
           mset (femaleEmployees st') \<subseteq>#
         mset (map employeeOf (filled (result st))) + mset (maleEmployees st) +
           mset (femaleEmployees st)"
  using assms
proof (induction gs arbitrary: st)
  case Nil
  then show ?case by simp
next
  case (Cons g gs)
  from Cons.prems obtain st1 where 1: "sharedStep st g = Inr st1" and 2: "sharedLoop gs st1 = Inr st'"
    by (auto split: sum.splits)
  show ?case
    using sharedStep_employees [OF 1] Cons.IH [OF 2] by (rule subset_mset.order_trans [rotated])
qed

lemma sharedLoop_returns: "\<exists>st'. sharedLoop gs st = Inr st'"
proof (induction gs arbitrary: st)
  case Nil
  show ?case by simp
next
  case (Cons g gs)
  obtain st1 where "sharedStep st g = Inr st1"
    by (cases rule: sharedStep_cases [of st g]) auto
  then show ?case using Cons.IH [of st1] by simp
qed


text \<open>The slots of the groups seen so far, when the next group goes to the overflow
  list and when it is filled from one pool.\<close>

lemma slots_overflow:
  assumes inv: "slotsInvariant rs seen u res"
    and dist: "distinct (map originalIndex (concat (seen @ [g])))"
    and wf: "\<forall>ri\<in>set g. wellIndexed rs ri"
  shows "slotsInvariant rs (seen @ [g]) (u @ g) res"
proof -
  from inv have len: "length res = length rs"
    and fresh: "\<forall>i<length rs. i \<notin> originalIndex ` set (concat seen) \<longrightarrow> res ! i = None"
    and lab: "\<forall>i<length rs. \<forall>x. res ! i = Some x \<longrightarrow> roomNumber x = rs ! i"
    and sub: "set u \<subseteq> set (concat seen)"
    and unf: "\<forall>ri\<in>set u. res ! originalIndex ri = None"
    and dich: "\<forall>g\<in>set seen. set g \<subseteq> set u \<or> (set g \<inter> set u = {} \<and>
         (\<exists>gen. (gen = male \<or> gen = female) \<and>
            (\<forall>ri\<in>set g. \<exists>x. res ! originalIndex ri = Some x \<and> gender x = gen)))"
    unfolding slotsInvariant_def by blast+
  from dist have disj: "originalIndex ` set (concat seen) \<inter> originalIndex ` set g = {}"
    by auto
  have new: "\<forall>ri\<in>set g. res ! originalIndex ri = None"
  proof
    fix ri assume ri: "ri \<in> set g"
    then have "originalIndex ri < length rs" using wf by (simp add: wellIndexed_def)
    moreover have "originalIndex ri \<notin> originalIndex ` set (concat seen)" using disj ri by blast
    ultimately show "res ! originalIndex ri = None" using fresh by blast
  qed
  have old: "\<forall>h\<in>set seen. set h \<inter> set g = {}"
    using disj by auto
  show ?thesis
    unfolding slotsInvariant_def
  proof (intro conjI)
    show "length res = length rs" by (rule len)
    show "\<forall>i<length rs. i \<notin> originalIndex ` set (concat (seen @ [g])) \<longrightarrow> res ! i = None"
      using fresh by auto
    show "\<forall>i<length rs. \<forall>x. res ! i = Some x \<longrightarrow> roomNumber x = rs ! i" by (rule lab)
    show "set (u @ g) \<subseteq> set (concat (seen @ [g]))" using sub by auto
    show "\<forall>ri\<in>set (u @ g). res ! originalIndex ri = None" using unf new by auto
    show "\<forall>h\<in>set (seen @ [g]). set h \<subseteq> set (u @ g) \<or> (set h \<inter> set (u @ g) = {} \<and>
         (\<exists>gen. (gen = male \<or> gen = female) \<and>
            (\<forall>ri\<in>set h. \<exists>x. res ! originalIndex ri = Some x \<and> gender x = gen)))"
    proof
      fix h assume "h \<in> set (seen @ [g])"
      then consider "h = g" | "h \<in> set seen" by auto
      then show "set h \<subseteq> set (u @ g) \<or> (set h \<inter> set (u @ g) = {} \<and>
         (\<exists>gen. (gen = male \<or> gen = female) \<and>
            (\<forall>ri\<in>set h. \<exists>x. res ! originalIndex ri = Some x \<and> gender x = gen)))"
      proof cases
        case 1
        then show ?thesis by simp
      next
        case 2
        with dich have "set h \<subseteq> set u \<or> (set h \<inter> set u = {} \<and>
         (\<exists>gen. (gen = male \<or> gen = female) \<and>
            (\<forall>ri\<in>set h. \<exists>x. res ! originalIndex ri = Some x \<and> gender x = gen)))" by blast
        moreover have "set h \<inter> set g = {}" using old 2 by blast
        ultimately show ?thesis by auto
      qed
    qed
  qed
qed

lemma slots_assign:
  assumes inv: "slotsInvariant rs seen u res"
    and dist: "distinct (map originalIndex (concat (seen @ [g])))"
    and wf: "\<forall>ri\<in>set (concat (seen @ [g])). wellIndexed rs ri"
    and le: "length g \<le> length pool"
    and pool: "\<forall>e\<in>set pool. gender e = gen"
    and gen: "gen = male \<or> gen = female"
  shows "slotsInvariant rs (seen @ [g]) u (writeAll (zip g pool) res)"
proof -
  let ?W = "writeAll (zip g pool) res"
  from inv have len: "length res = length rs"
    and fresh: "\<forall>i<length rs. i \<notin> originalIndex ` set (concat seen) \<longrightarrow> res ! i = None"
    and lab: "\<forall>i<length rs. \<forall>x. res ! i = Some x \<longrightarrow> roomNumber x = rs ! i"
    and sub: "set u \<subseteq> set (concat seen)"
    and unf: "\<forall>ri\<in>set u. res ! originalIndex ri = None"
    and dich: "\<forall>g\<in>set seen. set g \<subseteq> set u \<or> (set g \<inter> set u = {} \<and>
         (\<exists>gen. (gen = male \<or> gen = female) \<and>
            (\<forall>ri\<in>set g. \<exists>x. res ! originalIndex ri = Some x \<and> gender x = gen)))"
    unfolding slotsInvariant_def by blast+
  from dist have disj: "originalIndex ` set (concat seen) \<inter> originalIndex ` set g = {}"
    by auto
  have wfg: "\<forall>ri\<in>set g. wellIndexed rs ri" and wfs: "\<forall>ri\<in>set (concat seen). wellIndexed rs ri"
    using wf by auto
  have fst_ps: "fst ` set (zip g pool) = set g"
    using map_fst_zip_le [OF le] by (metis set_map)
  have snd_ps: "snd ` set (zip g pool) \<subseteq> set pool"
    by (auto dest: set_zip_rightD)
  have inr: "\<forall>p\<in>set (zip g pool). originalIndex (fst p) < length res"
    using wfg fst_ps len by (auto simp: wellIndexed_def dest: set_zip_leftD)
  have Wlen: "length ?W = length rs"
    using writeAll_length [OF inr] len by simp
  have frame: "?W ! i = res ! i" if "i < length rs" "i \<notin> originalIndex ` set g" for i
    using writeAll_frame [OF inr, of i] that len fst_ps by (simp add: image_image [symmetric])
  have Wlab: "roomNumber x = rs ! i" if "i < length rs" "?W ! i = Some x" for i x
  proof (rule writeAll_invariant [OF inr, where Q = "\<lambda>i x. roomNumber x = rs ! i"])
    show "\<forall>p\<in>set (zip g pool). roomNumber (assignment (snd p) (fst p)) = rs ! originalIndex (fst p)"
      using wfg by (auto simp: roomNumber_assignment wellIndexed_def dest: set_zip_leftD)
    show "\<forall>i<length res. \<forall>x. res ! i = Some x \<longrightarrow> roomNumber x = rs ! i"
      using lab len by simp
    show "i < length res" using that len by simp
    show "?W ! i = Some x" using that by simp
  qed
  have Wgen: "res ! i = Some x \<or> gender x = gen" if "i < length rs" "?W ! i = Some x" for i x
  proof (rule writeAll_invariant [OF inr, where Q = "\<lambda>i x. res ! i = Some x \<or> gender x = gen"])
    show "\<forall>p\<in>set (zip g pool). res ! originalIndex (fst p) = Some (assignment (snd p) (fst p)) \<or>
        gender (assignment (snd p) (fst p)) = gen"
      using pool by (auto simp: gender_assignment dest: set_zip_rightD)
    show "\<forall>i<length res. \<forall>x. res ! i = Some x \<longrightarrow> res ! i = Some x \<or> gender x = gen"
      by simp
    show "i < length res" using that len by simp
    show "?W ! i = Some x" using that by simp
  qed
  have new: "\<exists>x. ?W ! originalIndex ri = Some x \<and> gender x = gen" if "ri \<in> set g" for ri
  proof -
    from that fst_ps have "ri \<in> fst ` set (zip g pool)" by simp
    then obtain p where p: "p \<in> set (zip g pool)" "fst p = ri" by (metis imageE)
    from writeAll_written [OF inr p(1)] p(2) obtain x where x: "?W ! originalIndex ri = Some x"
      by auto
    have i: "originalIndex ri < length rs" using wfg that by (simp add: wellIndexed_def)
    have "originalIndex ri \<notin> originalIndex ` set (concat seen)" using disj that by blast
    then have "res ! originalIndex ri = None" using fresh i by blast
    with Wgen [OF i x] have "gender x = gen" by simp
    with x show ?thesis by blast
  qed
  show ?thesis
    unfolding slotsInvariant_def
  proof (intro conjI)
    show "length ?W = length rs" by (rule Wlen)
    show "\<forall>i<length rs. i \<notin> originalIndex ` set (concat (seen @ [g])) \<longrightarrow> ?W ! i = None"
    proof (intro allI impI)
      fix i assume i: "i < length rs" "i \<notin> originalIndex ` set (concat (seen @ [g]))"
      then have a: "i \<notin> originalIndex ` set g" and b: "i \<notin> originalIndex ` set (concat seen)"
        by auto
      show "?W ! i = None" using frame [OF i(1) a] fresh i(1) b by simp
    qed
    show "\<forall>i<length rs. \<forall>x. ?W ! i = Some x \<longrightarrow> roomNumber x = rs ! i"
      using Wlab by blast
    show "set u \<subseteq> set (concat (seen @ [g]))" using sub by auto
    show "\<forall>ri\<in>set u. ?W ! originalIndex ri = None"
    proof
      fix ri assume ri: "ri \<in> set u"
      then have c: "ri \<in> set (concat seen)" using sub by blast
      then have "originalIndex ri < length rs" using wfs unfolding wellIndexed_def by blast
      moreover have "originalIndex ri \<notin> originalIndex ` set g" using c disj by blast
      ultimately show "?W ! originalIndex ri = None" using frame unf ri by simp
    qed
    show "\<forall>h\<in>set (seen @ [g]). set h \<subseteq> set u \<or> (set h \<inter> set u = {} \<and>
         (\<exists>gen. (gen = male \<or> gen = female) \<and>
            (\<forall>ri\<in>set h. \<exists>x. ?W ! originalIndex ri = Some x \<and> gender x = gen)))"
    proof
      fix h assume "h \<in> set (seen @ [g])"
      then consider "h = g" | "h \<in> set seen" by auto
      then show "set h \<subseteq> set u \<or> (set h \<inter> set u = {} \<and>
         (\<exists>gen. (gen = male \<or> gen = female) \<and>
            (\<forall>ri\<in>set h. \<exists>x. ?W ! originalIndex ri = Some x \<and> gender x = gen)))"
      proof cases
        case 1
        have "set g \<inter> set u = {}" using sub disj by blast
        then show ?thesis using 1 new gen by blast
      next
        case 2
        have keep: "?W ! originalIndex ri = res ! originalIndex ri" if "ri \<in> set h" for ri
        proof -
          have c: "ri \<in> set (concat seen)" using 2 that by auto
          then have "originalIndex ri < length rs" using wfs unfolding wellIndexed_def by blast
          moreover have "originalIndex ri \<notin> originalIndex ` set g" using c disj by blast
          ultimately show ?thesis by (rule frame)
        qed
        from dich 2 have "set h \<subseteq> set u \<or> (set h \<inter> set u = {} \<and>
         (\<exists>gen. (gen = male \<or> gen = female) \<and>
            (\<forall>ri\<in>set h. \<exists>x. res ! originalIndex ri = Some x \<and> gender x = gen)))" by blast
        then show ?thesis using keep by auto
      qed
    qed
  qed
qed

lemma sharedStep_invariant:
  assumes slots: "slotsInvariant rs seen (unassignedSharedRooms st) (result st)"
    and pools: "poolsInvariant pooled seen st"
    and step: "sharedStep st g = Inr st'"
    and dist: "distinct (map originalIndex (concat (seen @ [g])))"
    and wf: "\<forall>ri\<in>set (concat (seen @ [g])). wellIndexed rs ri"
  shows "slotsInvariant rs (seen @ [g]) (unassignedSharedRooms st') (result st') \<and>
         poolsInvariant pooled (seen @ [g]) st'"
proof (cases rule: sharedStep_cases [of st g])
  case shortage
  with step have st': "st' = st\<lparr>unassignedSharedRooms := unassignedSharedRooms st @ g\<rparr>"
    by simp
  have "slotsInvariant rs (seen @ [g]) (unassignedSharedRooms st @ g) (result st)"
    by (rule slots_overflow [OF slots dist]) (use wf in auto)
  moreover have "poolsInvariant pooled (seen @ [g]) st'"
    using pools by (simp add: poolsInvariant_def st')
  ultimately show ?thesis by (simp add: st')
next
  case (males rnd')
  with step have st': "st' = st\<lparr>maleEmployees := drop (length g) (maleEmployees st),
      result := writeAll (zip g (maleEmployees st)) (result st), random := rnd'\<rparr>"
    by simp
  have "slotsInvariant rs (seen @ [g]) (unassignedSharedRooms st)
          (writeAll (zip g (maleEmployees st)) (result st))"
    by (rule slots_assign [OF slots dist wf males(1), of male])
       (use pools in \<open>auto simp: poolsInvariant_def\<close>)
  moreover have "poolsInvariant pooled (seen @ [g]) st'"
    using pools males(1) by (auto simp: poolsInvariant_def st' dest: in_set_dropD)
  ultimately show ?thesis by (simp add: st')
next
  case (females rnd')
  with step have st': "st' = st\<lparr>femaleEmployees := drop (length g) (femaleEmployees st),
      result := writeAll (zip g (femaleEmployees st)) (result st), random := rnd'\<rparr>"
    by simp
  have "slotsInvariant rs (seen @ [g]) (unassignedSharedRooms st)
          (writeAll (zip g (femaleEmployees st)) (result st))"
    by (rule slots_assign [OF slots dist wf females(1), of female])
       (use pools in \<open>auto simp: poolsInvariant_def\<close>)
  moreover have "poolsInvariant pooled (seen @ [g]) st'"
    using pools females(1) by (auto simp: poolsInvariant_def st' dest: in_set_dropD)
  ultimately show ?thesis by (simp add: st')
qed

lemma sharedLoop_invariant:
  assumes "slotsInvariant rs seen (unassignedSharedRooms st) (result st)"
    and "poolsInvariant pooled seen st"
    and "sharedLoop gs st = Inr st'"
    and "distinct (map originalIndex (concat (seen @ gs)))"
    and "\<forall>ri\<in>set (concat (seen @ gs)). wellIndexed rs ri"
  shows "slotsInvariant rs (seen @ gs) (unassignedSharedRooms st') (result st') \<and>
         poolsInvariant pooled (seen @ gs) st'"
  using assms
proof (induction gs arbitrary: seen st)
  case Nil
  then show ?case by simp
next
  case (Cons g gs)
  from Cons.prems(3) obtain st1 where 1: "sharedStep st g = Inr st1"
    and 2: "sharedLoop gs st1 = Inr st'"
    by (auto split: sum.splits)
  have "concat (seen @ g # gs) = concat (seen @ [g]) @ concat gs" by simp
  then have "distinct (map originalIndex (concat (seen @ [g])) @ map originalIndex (concat gs))"
    using Cons.prems(4) by (metis map_append)
  then have d1: "distinct (map originalIndex (concat (seen @ [g])))"
    by (simp only: distinct_append)
  have w1: "\<forall>ri\<in>set (concat (seen @ [g])). wellIndexed rs ri"
    using Cons.prems(5) by auto
  have inv1: "slotsInvariant rs (seen @ [g]) (unassignedSharedRooms st1) (result st1) \<and>
         poolsInvariant pooled (seen @ [g]) st1"
    by (rule sharedStep_invariant [OF Cons.prems(1,2) 1 d1 w1])
  have "slotsInvariant rs ((seen @ [g]) @ gs) (unassignedSharedRooms st') (result st') \<and>
         poolsInvariant pooled ((seen @ [g]) @ gs) st'"
    by (rule Cons.IH [OF conjunct1 [OF inv1] conjunct2 [OF inv1] 2])
       (use Cons.prems(4,5) in simp_all)
  then show ?case by simp
qed

section \<open>The room groups\<close>

lemma forEachRoom_append:
  "forEachRoom grp (xs @ ys) =
     (case forEachRoom grp xs of Inl e \<Rightarrow> Inl e | Inr grp' \<Rightarrow> forEachRoom grp' ys)"
  by (induction xs arbitrary: grp) (auto split: sum.splits)

lemma zip_upt_nth: "zip rs [0..<length rs] = map (\<lambda>i. (rs ! i, i)) [0..<length rs]"
  by (rule nth_equalityI) simp_all

lemma pushTo_keys: "map fst (pushTo k x grp) = map fst grp"
  by (induction grp) auto

lemma pushTo_concat:
  "k \<in> fst ` set grp \<Longrightarrow>
   mset (concat (map snd (pushTo k x grp))) = add_mset x (mset (concat (map snd grp)))"
proof (induction grp)
  case Nil
  then show ?case by simp
next
  case (Cons kv grp)
  obtain k' l where kv: "kv = (k', l)" by (cases kv)
  show ?case
  proof (cases "k' = k")
    case True
    then show ?thesis by (simp add: kv)
  next
    case False
    then have "k \<in> fst ` set grp" using Cons.prems by (auto simp: kv)
    then show ?thesis using Cons.IH False by (simp add: kv)
  qed
qed

lemma pushTo_set:
  "(k', l') \<in> set (pushTo k x grp) \<Longrightarrow>
   (k', l') \<in> set grp \<or> (k' = k \<and> (\<exists>l. (k, l) \<in> set grp \<and> l' = l @ [x]))"
  by (induction grp) (auto split: if_splits)

lemma addRoom_invariant:
  assumes inv: "groupsInvariant rs m grp"
    and add: "addRoom grp (rs ! m, m) = Inr grp'"
  shows "groupsInvariant rs (Suc m) grp'"
proof -
  let ?k = "baseRoom (parseRoomNumber (rs ! m))"
  have info: "\<lparr>fullRoom = rs ! m, roomBedroom = bedroom (parseRoomNumber (rs ! m)),
      originalIndex = m\<rparr> = infoAt rs m"
    by (simp add: infoAt_def)
  have key: "baseRoom (parseRoomNumber (fullRoom (infoAt rs m))) = ?k"
    by (simp add: infoAt_def)
  from inv have ms: "mset (concat (map snd grp)) = mset (map (infoAt rs) [0..<m])"
    and mem: "\<forall>(k, l)\<in>set grp. l \<noteq> [] \<and> (\<forall>ri\<in>set l. baseRoom (parseRoomNumber (fullRoom ri)) = k)"
    and keys: "distinct (map fst grp)"
    unfolding groupsInvariant_def by blast+
  show ?thesis
  proof (cases "map_of grp ?k")
    case None
    with add have grp': "grp' = grp @ [(?k, [infoAt rs m])]"
      by (simp add: addRoom_def Let_def info split: if_splits)
    have "?k \<notin> fst ` set grp" using None by (simp add: map_of_eq_None_iff)
    then show ?thesis
      unfolding groupsInvariant_def grp' using ms mem keys key by auto
  next
    case (Some l)
    with add have grp': "grp' = pushTo ?k (infoAt rs m) grp"
      by (simp add: addRoom_def Let_def info)
    have kin: "?k \<in> fst ` set grp" using map_of_SomeD [OF Some] by force
    have "mset (concat (map snd grp')) = mset (map (infoAt rs) [0..<Suc m])"
      using pushTo_concat [OF kin, of "infoAt rs m"] ms by (simp add: grp')
    moreover have "\<forall>(k, l)\<in>set grp'. l \<noteq> [] \<and>
        (\<forall>ri\<in>set l. baseRoom (parseRoomNumber (fullRoom ri)) = k)"
    proof (intro ballI, clarify)
      fix k' l' assume "(k', l') \<in> set grp'"
      then consider "(k', l') \<in> set grp"
        | l0 where "k' = ?k" "(?k, l0) \<in> set grp" "l' = l0 @ [infoAt rs m]"
        using pushTo_set [of k' l' ?k "infoAt rs m" grp] by (auto simp: grp')
      then show "l' \<noteq> [] \<and> (\<forall>ri\<in>set l'. baseRoom (parseRoomNumber (fullRoom ri)) = k')"
      proof cases
        case 1
        then show ?thesis using mem by blast
      next
        case 2
        then show ?thesis using mem key by auto
      qed
    qed
    moreover have "distinct (map fst grp')" using keys by (simp add: grp' pushTo_keys)
    ultimately show ?thesis unfolding groupsInvariant_def by blast
  qed
qed

lemma forEachRoom_invariant:
  assumes "m \<le> length rs"
    and "forEachRoom [] (map (\<lambda>i. (rs ! i, i)) [0..<m]) = Inr grp"
  shows "groupsInvariant rs m grp"
  using assms
proof (induction m arbitrary: grp)
  case 0
  then show ?case by (simp add: groupsInvariant_def)
next
  case (Suc m)
  from Suc.prems(2) obtain grp0 where
    0: "forEachRoom [] (map (\<lambda>i. (rs ! i, i)) [0..<m]) = Inr grp0"
    and 1: "addRoom grp0 (rs ! m, m) = Inr grp"
    by (auto simp: forEachRoom_append split: sum.splits)
  have "groupsInvariant rs m grp0" using Suc.IH [OF _ 0] Suc.prems(1) by simp
  then show ?case using 1 by (rule addRoom_invariant)
qed

lemma objectEntries_mset: "mset (objectEntries obj) = mset obj"
  by (simp add: objectEntries_def)

lemma mset_concat_cong: "mset xs = mset ys \<Longrightarrow> mset (concat xs) = mset (concat ys)"
  by (metis mset_concat sum_mset_sum_list mset_map)

lemma separateRooms_shared:
  "set (fst (separateRooms es)) = {l. \<exists>k. (k, l) \<in> set es \<and> 2 \<le> length l}"
  by (induction es rule: separateRooms.induct) (auto simp: Let_def split: prod.splits)

lemma separateRooms_mset:
  "\<forall>(k, l)\<in>set es. l \<noteq> [] \<Longrightarrow>
   mset (map Some (concat (fst (separateRooms es)))) + mset (snd (separateRooms es)) =
   mset (map Some (concat (map snd es)))"
proof (induction es rule: separateRooms.induct)
  case 1
  show ?case by simp
next
  case (2 key roomList rest)
  obtain sh si where rest: "separateRooms rest = (sh, si)" by (cases "separateRooms rest")
  have ih: "mset (map Some (concat sh)) + mset si = mset (map Some (concat (map snd rest)))"
    using 2 rest by simp
  show ?case
  proof (cases "2 \<le> length roomList")
    case True
    then show ?thesis using ih by (simp add: rest)
  next
    case False
    moreover have "roomList \<noteq> []" using "2.prems" by simp
    ultimately obtain x where x: "roomList = [x]"
      by (cases roomList) (auto simp: Suc_le_eq)
    show ?thesis using ih by (simp add: rest x arrayGet_def)
  qed
qed

text \<open>
  What the room analysis returns: every row of the input has exactly one slot, in a
  shared group or among the single rooms, and two rows with the same base room have
  their slots in one shared group.
\<close>

lemma analyseRooms_slots:
  assumes "analyseRooms rs = Inr (shared, single)"
  shows "mset (map Some (concat shared)) + mset single =
           mset (map (\<lambda>i. Some (infoAt rs i)) [0..<length rs])"
    and "\<And>i j. i < length rs \<Longrightarrow> j < length rs \<Longrightarrow> i \<noteq> j \<Longrightarrow>
           baseRoom (parseRoomNumber (rs ! i)) = baseRoom (parseRoomNumber (rs ! j)) \<Longrightarrow>
           \<exists>g\<in>set shared. infoAt rs i \<in> set g \<and> infoAt rs j \<in> set g"
proof -
  from assms obtain grp where
    grp: "forEachRoom [] (map (\<lambda>i. (rs ! i, i)) [0..<length rs]) = Inr grp"
    and sep: "separateRooms (objectEntries grp) = (shared, single)"
    by (auto simp: analyseRooms_def zip_upt_nth split: sum.splits)
  have "groupsInvariant rs (length rs) grp"
    by (rule forEachRoom_invariant [OF _ grp]) simp
  then have ms: "mset (concat (map snd grp)) = mset (map (infoAt rs) [0..<length rs])"
    and mem: "\<forall>(k, l)\<in>set grp. l \<noteq> [] \<and> (\<forall>ri\<in>set l. baseRoom (parseRoomNumber (fullRoom ri)) = k)"
    and keys: "distinct (map fst grp)"
    unfolding groupsInvariant_def by blast+
  let ?es = "objectEntries grp"
  have set_es: "set ?es = set grp"
    using objectEntries_mset [of grp] by (metis set_mset_mset)
  have ne: "\<forall>(k, l)\<in>set ?es. l \<noteq> []" using mem set_es by auto
  have "mset (concat (map snd ?es)) = mset (concat (map snd grp))"
    by (rule mset_concat_cong) (simp add: objectEntries_mset)
  then have "mset (map Some (concat (map snd ?es))) = mset (map (\<lambda>i. Some (infoAt rs i)) [0..<length rs])"
    using ms by (simp add: multiset.map_comp comp_def)
  then show "mset (map Some (concat shared)) + mset single =
           mset (map (\<lambda>i. Some (infoAt rs i)) [0..<length rs])"
    using separateRooms_mset [OF ne] sep by simp
  fix i j
  assume ij: "i < length rs" "j < length rs" "i \<noteq> j"
    "baseRoom (parseRoomNumber (rs ! i)) = baseRoom (parseRoomNumber (rs ! j))"
  have inall: "infoAt rs a \<in> set (concat (map snd grp))" if "a < length rs" for a
  proof -
    have "infoAt rs a \<in># mset (map (infoAt rs) [0..<length rs])" using that by simp
    then show ?thesis using ms by (metis set_mset_mset)
  qed
  from inall [OF ij(1)] obtain k1 l1 where 1: "(k1, l1) \<in> set grp" "infoAt rs i \<in> set l1"
    by auto
  from inall [OF ij(2)] obtain k2 l2 where 2: "(k2, l2) \<in> set grp" "infoAt rs j \<in> set l2"
    by auto
  have "k1 = baseRoom (parseRoomNumber (rs ! i))" using mem 1 by (force simp: infoAt_def)
  moreover have "k2 = baseRoom (parseRoomNumber (rs ! j))" using mem 2 by (force simp: infoAt_def)
  ultimately have "k1 = k2" using ij(4) by simp
  then have l: "l1 = l2" using eq_key_imp_eq_value [OF keys 1(1)] 2(1) by simp
  have "infoAt rs i \<noteq> infoAt rs j" using ij(3) by (simp add: infoAt_def)
  then have "2 \<le> length l1" using 1(2) 2(2) l
    by (cases l1 rule: list.exhaust, simp, rename_tac a as, case_tac as) auto
  then have "l1 \<in> set shared"
    using separateRooms_shared [of ?es] sep 1(1) set_es by auto
  then show "\<exists>g\<in>set shared. infoAt rs i \<in> set g \<and> infoAt rs j \<in> set g"
    using 1(2) 2(2) l by blast
qed

text \<open>Consequences for the slots, listed in one list.\<close>

lemma slots_permutation:
  assumes "mset (map Some all) = mset (map (\<lambda>i. Some (infoAt rs i)) [0..<length rs])"
  shows "mset all = mset (map (infoAt rs) [0..<length rs])"
    and "distinct (map originalIndex all)"
    and "originalIndex ` set all = {0..<length rs}"
    and "\<forall>ri\<in>set all. wellIndexed rs ri"
    and "length all = length rs"
proof -
  have "mset (map the (map Some all)) = mset (map the (map (\<lambda>i. Some (infoAt rs i)) [0..<length rs]))"
    using assms by (metis mset_map)
  then show m: "mset all = mset (map (infoAt rs) [0..<length rs])"
    by (simp add: comp_def)
  have "mset (map originalIndex all) = mset (map originalIndex (map (infoAt rs) [0..<length rs]))"
    using m by (metis mset_map)
  then have mi: "mset (map originalIndex all) = mset [0..<length rs]"
    by (simp add: comp_def infoAt_def)
  show "distinct (map originalIndex all)"
    using mi by (metis distinct_upt mset_eq_imp_distinct_iff)
  show "originalIndex ` set all = {0..<length rs}"
    using mi by (metis set_map set_mset_mset set_upt)
  show "\<forall>ri\<in>set all. wellIndexed rs ri"
  proof
    fix ri assume "ri \<in> set all"
    then have "ri \<in> set (map (infoAt rs) [0..<length rs])" using m by (metis set_mset_mset)
    then show "wellIndexed rs ri" by (auto simp: wellIndexed_def infoAt_def)
  qed
  show "length all = length rs" using m by (metis size_mset length_map length_upt diff_zero)
qed

section \<open>A run of the lottery\<close>

lemma all_Some_map: "\<forall>x\<in>set xs. x \<noteq> None \<Longrightarrow> map Some (map the xs) = xs"
  by (induction xs) auto

text \<open>The parts of a run of \<open>allocation\<close> that returns.\<close>

lemma allocation_run:
  assumes "allocation rnd entries = Inr (arr, rnd')"
  obtains shared0 shared single males females st0 st sl rem where
    "analyseRooms (rooms entries) = Inr (shared0, single)"
    "mset shared = mset shared0"
    "mset males = mset (filter (\<lambda>e. gender e = male) (employees entries))"
    "mset females = mset (filter (\<lambda>e. gender e = female) (employees entries))"
    "maleEmployees st0 = males" "femaleEmployees st0 = females"
    "result st0 = replicate (length entries) None" "unassignedSharedRooms st0 = []"
    "sharedLoop shared st0 = Inr st"
    "overflow rnd entries = unassignedSharedRooms st"
    "mset (map Some sl) = mset single + mset (map Some (unassignedSharedRooms st))"
    "mset rem = mset (maleEmployees st) + mset (femaleEmployees st)"
    "arr = writeAll (zip sl rem) (result st)"
proof -
  from assms obtain st single where sp: "sharedPhase rnd entries = Inr (st, single)"
    and single: "singlePhase st single = Inr (arr, rnd')"
    by (auto simp: allocation_def split: sum.splits)
  from sp obtain shared0 where an: "analyseRooms (rooms entries) = Inr (shared0, single)"
    by (auto simp: sharedPhase_def Let_def split: sum.splits prod.splits)
  let ?m = "filter (\<lambda>e. gender e = male) (employees entries)"
  let ?f = "filter (\<lambda>e. gender e = female) (employees entries)"
  let ?r1 = "snd (shuffleArray rnd ?m)"
  let ?r2 = "snd (shuffleArray ?r1 ?f)"
  let ?st0 = "\<lparr>maleEmployees = fst (shuffleArray rnd ?m),
      femaleEmployees = fst (shuffleArray ?r1 ?f),
      result = replicate (length entries) None, unassignedSharedRooms = [],
      random = snd (shuffleArray ?r2 shared0)\<rparr>"
  let ?shared = "fst (shuffleArray ?r2 shared0)"
  from sp an have loop: "sharedLoop ?shared ?st0 = Inr st"
    by (auto simp: sharedPhase_def Let_def split: sum.splits prod.splits)
  have ov: "overflow rnd entries = unassignedSharedRooms st"
    by (simp add: overflow_def sp)
  let ?rem = "fst (shuffleArray (random st) (maleEmployees st @ femaleEmployees st))"
  let ?slots = "fst (shuffleArray (snd (shuffleArray (random st)
      (maleEmployees st @ femaleEmployees st))) (allSingleRooms st single))"
  from single have sl: "singleLoop ?slots ?rem (result st) = Inr arr"
    by (auto simp: singlePhase_def Let_def split: sum.splits prod.splits)
  have mslots: "mset ?slots = mset single + mset (map Some (unassignedSharedRooms st))"
    by (simp add: shuffleArray_mset allSingleRooms_def)
  have "mset (map Some (concat shared0)) + mset single =
        mset (map (\<lambda>i. Some (infoAt (rooms entries) i)) [0..<length (rooms entries)])"
    by (rule analyseRooms_slots(1) [OF an])
  then have "\<forall>x\<in>set single. x \<noteq> None"
    by (metis (no_types, lifting) ex_map_conv option.distinct(1) set_mset_mset union_iff)
  then have "\<forall>x\<in>set ?slots. x \<noteq> None"
    using mslots by (metis (no_types, lifting) ex_map_conv option.distinct(1) set_mset_mset union_iff)
  then have some: "map Some (map the ?slots) = ?slots" by (rule all_Some_map)
  have "singleLoop ?slots ?rem (result st) = Inr (writeAll (zip (map the ?slots) ?rem) (result st))"
    using singleLoop_eq [of "map the ?slots" ?rem "result st"] by (simp only: some)
  then have arr: "arr = writeAll (zip (map the ?slots) ?rem) (result st)"
    using sl by simp
  show ?thesis
  proof (rule that [of shared0 single ?shared "fst (shuffleArray rnd ?m)"
        "fst (shuffleArray ?r1 ?f)" ?st0 st "map the ?slots" ?rem])
    show "analyseRooms (rooms entries) = Inr (shared0, single)" by (rule an)
    show "mset ?shared = mset shared0" by (rule shuffleArray_mset)
    show "mset (fst (shuffleArray rnd ?m)) = mset ?m" by (rule shuffleArray_mset)
    show "mset (fst (shuffleArray ?r1 ?f)) = mset ?f" by (rule shuffleArray_mset)
    show "maleEmployees ?st0 = fst (shuffleArray rnd ?m)" by simp
    show "femaleEmployees ?st0 = fst (shuffleArray ?r1 ?f)" by simp
    show "result ?st0 = replicate (length entries) None" by simp
    show "unassignedSharedRooms ?st0 = []" by simp
    show "sharedLoop ?shared ?st0 = Inr st" by (rule loop)
    show "overflow rnd entries = unassignedSharedRooms st" by (rule ov)
    show "mset (map Some (map the ?slots)) = mset single + mset (map Some (unassignedSharedRooms st))"
      using mslots by (simp only: some)
    show "mset ?rem = mset (maleEmployees st) + mset (femaleEmployees st)"
      by (simp add: shuffleArray_mset)
    show "arr = writeAll (zip (map the ?slots) ?rem) (result st)" by (rule arr)
  qed
qed

lemma slotsInvariant_initial: "slotsInvariant rs [] [] (replicate (length rs) None)"
  by (simp add: slotsInvariant_def)

text \<open>The state after the loop over the shared rooms, and the writes of the loop over
  the single rooms.\<close>

lemma allocation_state:
  assumes "allocation rnd entries = Inr (arr, rnd')"
  obtains shared single st sl rem where
    "slotsInvariant (rooms entries) shared (overflow rnd entries) (result st)"
    "poolsInvariant (length (filter (\<lambda>e. gender e = male) (employees entries)) +
        length (filter (\<lambda>e. gender e = female) (employees entries))) shared st"
    "unassignedSharedRooms st = overflow rnd entries"
    "mset (map Some (concat shared)) + mset single =
       mset (map (\<lambda>i. Some (infoAt (rooms entries) i)) [0..<length (rooms entries)])"
    "\<And>i j. i < length (rooms entries) \<Longrightarrow> j < length (rooms entries) \<Longrightarrow> i \<noteq> j \<Longrightarrow>
       baseRoom (parseRoomNumber (rooms entries ! i)) =
       baseRoom (parseRoomNumber (rooms entries ! j)) \<Longrightarrow>
       \<exists>g\<in>set shared. infoAt (rooms entries) i \<in> set g \<and> infoAt (rooms entries) j \<in> set g"
    "mset (map Some sl) = mset single + mset (map Some (overflow rnd entries))"
    "mset rem = mset (maleEmployees st) + mset (femaleEmployees st)"
    "arr = writeAll (zip sl rem) (result st)"
    "mset (map employeeOf (filled (result st))) + mset (maleEmployees st) +
       mset (femaleEmployees st) \<subseteq>#
     mset (filter (\<lambda>e. gender e = male) (employees entries)) +
       mset (filter (\<lambda>e. gender e = female) (employees entries))"
proof -
  let ?rs = "rooms entries"
  let ?m = "filter (\<lambda>e. gender e = male) (employees entries)"
  let ?f = "filter (\<lambda>e. gender e = female) (employees entries)"
  obtain shared0 shared single males females st0 st sl rem where
    an: "analyseRooms ?rs = Inr (shared0, single)"
    and sh: "mset shared = mset shared0"
    and males: "mset males = mset ?m"
    and females: "mset females = mset ?f"
    and st0: "maleEmployees st0 = males" "femaleEmployees st0 = females"
      "result st0 = replicate (length entries) None" "unassignedSharedRooms st0 = []"
    and loop: "sharedLoop shared st0 = Inr st"
    and ov: "overflow rnd entries = unassignedSharedRooms st"
    and sl: "mset (map Some sl) = mset single + mset (map Some (unassignedSharedRooms st))"
    and rem: "mset rem = mset (maleEmployees st) + mset (femaleEmployees st)"
    and arr: "arr = writeAll (zip sl rem) (result st)"
    using allocation_run [OF assms] by metis
  have len: "length ?rs = length entries" by (simp add: rooms_def)
  have ms0: "mset (map Some (concat shared0)) + mset single =
       mset (map (\<lambda>i. Some (infoAt ?rs i)) [0..<length ?rs])"
    by (rule analyseRooms_slots(1) [OF an])
  have cc: "mset (concat shared) = mset (concat shared0)"
    by (rule mset_concat_cong [OF sh])
  then have ms: "mset (map Some (concat shared)) + mset single =
       mset (map (\<lambda>i. Some (infoAt ?rs i)) [0..<length ?rs])"
    using ms0 by simp
  have "\<forall>x\<in>set single. x \<noteq> None"
    using ms by (metis (no_types, lifting) ex_map_conv option.distinct(1) set_mset_mset union_iff)
  then have "map Some (map the single) = single" by (rule all_Some_map)
  then have "mset (map Some (concat shared @ map the single)) =
       mset (map (\<lambda>i. Some (infoAt ?rs i)) [0..<length ?rs])"
    using ms by simp
  note perm = slots_permutation [OF this]
  have dist: "distinct (map originalIndex (concat ([] @ shared)))"
    using perm(2) by simp
  have wf: "\<forall>ri\<in>set (concat ([] @ shared)). wellIndexed ?rs ri"
    using perm(4) by simp
  have s0: "slotsInvariant ?rs [] (unassignedSharedRooms st0) (result st0)"
    using slotsInvariant_initial [of ?rs] by (simp add: st0 len)
  have "set males = set ?m" using males by (metis set_mset_mset)
  then have gm: "\<forall>e\<in>set males. gender e = male" by simp
  have "set females = set ?f" using females by (metis set_mset_mset)
  then have gf: "\<forall>e\<in>set females. gender e = female" by simp
  have lm: "length males = length ?m" using males by (metis size_mset)
  have lf: "length females = length ?f" using females by (metis size_mset)
  have p0: "poolsInvariant (length ?m + length ?f) [] st0"
    using gm gf lm lf by (simp add: poolsInvariant_def st0)
  have inv: "slotsInvariant ?rs ([] @ shared) (unassignedSharedRooms st) (result st) \<and>
      poolsInvariant (length ?m + length ?f) ([] @ shared) st"
    by (rule sharedLoop_invariant [OF s0 p0 loop dist wf])
  have emp: "mset (map employeeOf (filled (result st))) + mset (maleEmployees st) +
       mset (femaleEmployees st) \<subseteq># mset ?m + mset ?f"
    using sharedLoop_employees [OF loop] males females
    by (simp add: st0 filled_replicate_None)
  have key: "\<exists>g\<in>set shared. infoAt ?rs i \<in> set g \<and> infoAt ?rs j \<in> set g"
    if "i < length ?rs" "j < length ?rs" "i \<noteq> j"
      "baseRoom (parseRoomNumber (?rs ! i)) = baseRoom (parseRoomNumber (?rs ! j))" for i j
    using analyseRooms_slots(2) [OF an that] sh by (metis set_mset_mset)
  show ?thesis
  proof (rule that [of shared st single sl rem])
    show "slotsInvariant ?rs shared (overflow rnd entries) (result st)"
      using inv by (simp add: ov)
    show "poolsInvariant (length ?m + length ?f) shared st" using inv by simp
    show "unassignedSharedRooms st = overflow rnd entries" by (simp add: ov)
    show "mset (map Some (concat shared)) + mset single =
       mset (map (\<lambda>i. Some (infoAt ?rs i)) [0..<length ?rs])" by (rule ms)
    show "\<And>i j. i < length ?rs \<Longrightarrow> j < length ?rs \<Longrightarrow> i \<noteq> j \<Longrightarrow>
       baseRoom (parseRoomNumber (?rs ! i)) = baseRoom (parseRoomNumber (?rs ! j)) \<Longrightarrow>
       \<exists>g\<in>set shared. infoAt ?rs i \<in> set g \<and> infoAt ?rs j \<in> set g"
      by (rule key)
    show "mset (map Some sl) = mset single + mset (map Some (overflow rnd entries))"
      using sl by (simp add: ov)
    show "mset rem = mset (maleEmployees st) + mset (femaleEmployees st)" by (rule rem)
    show "arr = writeAll (zip sl rem) (result st)" by (rule arr)
    show "mset (map employeeOf (filled (result st))) + mset (maleEmployees st) +
       mset (femaleEmployees st) \<subseteq># mset ?m + mset ?f" by (rule emp)
  qed
qed

lemma mset_snd_zip: "mset (map snd (zip xs ys)) \<subseteq># mset ys"
proof -
  have "mset ys = mset (take (min (length xs) (length ys)) ys) + mset (drop (min (length xs) (length ys)) ys)"
    by (metis append_take_drop_id mset_append)
  then show ?thesis by (simp add: map_snd_zip_take)
qed

lemma mset_filter_two:
  "\<forall>x. \<not> (P x \<and> Q x) \<Longrightarrow>
   mset (filter P xs) + mset (filter Q xs) = mset (filter (\<lambda>x. P x \<or> Q x) xs)"
  by (induction xs) auto

lemma length_filter_two:
  "\<forall>x\<in>set xs. P x \<or> Q x \<Longrightarrow> \<forall>x. \<not> (P x \<and> Q x) \<Longrightarrow>
   length (filter P xs) + length (filter Q xs) = length xs"
  by (induction xs) auto

lemma male_not_female: "male \<noteq> female"
  by (simp add: male_def female_def)

text \<open>What holds of the array \<open>result\<close> when \<open>allocation\<close> returns it.\<close>

lemma allocation_facts:
  assumes "allocation rnd entries = Inr (arr, rnd')"
  shows "length arr = length entries"
    and "\<forall>i<length entries. \<forall>x. arr ! i = Some x \<longrightarrow> roomNumber x = roomNumber (entries ! i)"
    and "mset (map employeeOf (filled arr)) \<subseteq>#
           mset (filter (\<lambda>e. gender e = male \<or> gender e = female) (employees entries))"
    and "\<And>i j. sameSharedGroup entries i j \<Longrightarrow>
           (i \<in> overflowIndices rnd entries \<and> j \<in> overflowIndices rnd entries) \<or>
           (i \<notin> overflowIndices rnd entries \<and> j \<notin> overflowIndices rnd entries \<and>
            (\<exists>x y. arr ! i = Some x \<and> arr ! j = Some y \<and> gender x = gender y \<and>
               (gender x = male \<or> gender x = female)))"
    and "(\<forall>d\<in>set entries. gender d = male \<or> gender d = female) \<Longrightarrow>
           \<forall>i<length entries. arr ! i \<noteq> None"
proof -
  let ?rs = "rooms entries"
  let ?u = "overflow rnd entries"
  let ?m = "filter (\<lambda>e. gender e = male) (employees entries)"
  let ?f = "filter (\<lambda>e. gender e = female) (employees entries)"
  obtain shared single st sl rem where
    slots: "slotsInvariant ?rs shared ?u (result st)"
    and pools: "poolsInvariant (length ?m + length ?f) shared st"
    and ust: "unassignedSharedRooms st = ?u"
    and ms: "mset (map Some (concat shared)) + mset single =
       mset (map (\<lambda>i. Some (infoAt ?rs i)) [0..<length ?rs])"
    and key: "\<And>i j. i < length ?rs \<Longrightarrow> j < length ?rs \<Longrightarrow> i \<noteq> j \<Longrightarrow>
       baseRoom (parseRoomNumber (?rs ! i)) = baseRoom (parseRoomNumber (?rs ! j)) \<Longrightarrow>
       \<exists>g\<in>set shared. infoAt ?rs i \<in> set g \<and> infoAt ?rs j \<in> set g"
    and sl: "mset (map Some sl) = mset single + mset (map Some ?u)"
    and rem: "mset rem = mset (maleEmployees st) + mset (femaleEmployees st)"
    and arr: "arr = writeAll (zip sl rem) (result st)"
    and emp: "mset (map employeeOf (filled (result st))) + mset (maleEmployees st) +
       mset (femaleEmployees st) \<subseteq># mset ?m + mset ?f"
    using allocation_state [OF assms] by metis
  have n: "length ?rs = length entries" by (simp add: rooms_def)
  from slots have len: "length (result st) = length ?rs"
    and lab: "\<forall>i<length ?rs. \<forall>x. result st ! i = Some x \<longrightarrow> roomNumber x = ?rs ! i"
    and sub: "set ?u \<subseteq> set (concat shared)"
    and dich: "\<forall>g\<in>set shared. set g \<subseteq> set ?u \<or> (set g \<inter> set ?u = {} \<and>
         (\<exists>gen. (gen = male \<or> gen = female) \<and>
            (\<forall>ri\<in>set g. \<exists>x. result st ! originalIndex ri = Some x \<and> gender x = gen)))"
    unfolding slotsInvariant_def by blast+
  \<comment> \<open>all slots, in one list\<close>
  let ?all = "concat shared @ map the single"
  have "\<forall>x\<in>set single. x \<noteq> None"
    using ms by (metis (no_types, lifting) ex_map_conv option.distinct(1) set_mset_mset union_iff)
  then have single: "map Some (map the single) = single" by (rule all_Some_map)
  then have "mset (map Some ?all) = mset (map (\<lambda>i. Some (infoAt ?rs i)) [0..<length ?rs])"
    using ms by simp
  note perm = slots_permutation [OF this]
  have inj: "ri = ri'" if "ri \<in> set ?all" "ri' \<in> set ?all" "originalIndex ri = originalIndex ri'"
    for ri ri'
    using perm(2) that by (meson distinct_map inj_onD)
  have dall: "distinct ?all" using perm(2) by (simp only: distinct_map)
  have "mset (map the (map Some sl)) = mset (map the single) + mset (map the (map Some ?u))"
    using sl by (metis mset_map image_mset_union)
  then have msl: "mset sl = mset (map the single) + mset ?u" by (simp add: comp_def)
  then have ssl: "set sl = set (map the single) \<union> set ?u" by (metis set_mset_mset set_mset_union)
  have slall: "set sl \<subseteq> set ?all" using ssl sub by auto
  have slwf: "\<forall>ri\<in>set sl. wellIndexed ?rs ri" using perm(4) slall by blast
  have zfst: "fst p \<in> set sl" if "p \<in> set (zip sl rem)" for p
    using that by (metis prod.collapse set_zip_leftD)
  have inr: "\<forall>p\<in>set (zip sl rem). originalIndex (fst p) < length (result st)"
    using slwf zfst len by (simp add: wellIndexed_def)
  show a: "length arr = length entries"
    using writeAll_length [OF inr] len n by (simp add: arr)
  show "\<forall>i<length entries. \<forall>x. arr ! i = Some x \<longrightarrow> roomNumber x = roomNumber (entries ! i)"
  proof (intro allI impI)
    fix i x assume i: "i < length entries" and x: "arr ! i = Some x"
    have "roomNumber x = ?rs ! i"
    proof (rule writeAll_invariant [OF inr, where Q = "\<lambda>i x. roomNumber x = ?rs ! i"])
      show "\<forall>p\<in>set (zip sl rem). roomNumber (assignment (snd p) (fst p)) = ?rs ! originalIndex (fst p)"
        using slwf zfst by (simp add: roomNumber_assignment wellIndexed_def)
      show "\<forall>i<length (result st). \<forall>x. result st ! i = Some x \<longrightarrow> roomNumber x = ?rs ! i"
        using lab len by simp
      show "i < length (result st)" using i len n by simp
      show "writeAll (zip sl rem) (result st) ! i = Some x" using x by (simp add: arr)
    qed
    then show "roomNumber x = roomNumber (entries ! i)" using i by (simp add: rooms_def)
  qed
  show "mset (map employeeOf (filled arr)) \<subseteq>#
           mset (filter (\<lambda>e. gender e = male \<or> gender e = female) (employees entries))"
  proof -
    have "mset (map employeeOf (filled arr)) \<subseteq>#
        mset (map employeeOf (filled (result st))) + mset (map snd (zip sl rem))"
      unfolding arr by (rule writeAll_employees)
    also have "\<dots> \<subseteq># mset (map employeeOf (filled (result st))) + mset rem"
      using mset_snd_zip [of sl rem] by (rule subset_mset.add_left_mono)
    also have "\<dots> = mset (map employeeOf (filled (result st))) + mset (maleEmployees st) +
        mset (femaleEmployees st)"
      by (simp add: rem)
    also have "\<dots> \<subseteq># mset ?m + mset ?f" by (rule emp)
    also have "\<dots> = mset (filter (\<lambda>e. gender e = male \<or> gender e = female) (employees entries))"
      by (rule mset_filter_two) (simp add: male_not_female)
    finally show ?thesis .
  qed
  \<comment> \<open>a slot of a group that was filled is left alone in the second loop\<close>
  have untouched: "arr ! originalIndex ri = result st ! originalIndex ri"
    if g: "g \<in> set shared" "set g \<inter> set ?u = {}" and ri: "ri \<in> set g" for g ri
  proof -
    have riall: "ri \<in> set ?all" and rish: "ri \<in> set (concat shared)" using g(1) ri by auto
    have "originalIndex ri \<notin> originalIndex ` set sl"
    proof
      assume "originalIndex ri \<in> originalIndex ` set sl"
      then obtain ri' where ri': "ri' \<in> set sl" "originalIndex ri = originalIndex ri'" by auto
      then have "ri = ri'" using inj [OF riall] slall by blast
      then have "ri \<in> set (map the single) \<or> ri \<in> set ?u" using ri'(1) ssl by auto
      moreover have "ri \<notin> set (map the single)" using dall rish by auto
      moreover have "ri \<notin> set ?u" using g(2) ri by blast
      ultimately show False by blast
    qed
    moreover have "fst ` set (zip sl rem) \<subseteq> set sl" by (auto dest: set_zip_leftD)
    ultimately have "originalIndex ri \<notin> originalIndex ` fst ` set (zip sl rem)" by blast
    moreover have "wellIndexed ?rs ri" using perm(4) riall by blast
    then have "originalIndex ri < length (result st)"
      by (simp add: wellIndexed_def len)
    ultimately show ?thesis unfolding arr using writeAll_frame [OF inr] by blast
  qed
  show "(i \<in> overflowIndices rnd entries \<and> j \<in> overflowIndices rnd entries) \<or>
           (i \<notin> overflowIndices rnd entries \<and> j \<notin> overflowIndices rnd entries \<and>
            (\<exists>x y. arr ! i = Some x \<and> arr ! j = Some y \<and> gender x = gender y \<and>
               (gender x = male \<or> gender x = female)))"
    if "sameSharedGroup entries i j" for i j
  proof -
    from that have ij: "i < length ?rs" "j < length ?rs" "i \<noteq> j"
      "baseRoom (parseRoomNumber (?rs ! i)) = baseRoom (parseRoomNumber (?rs ! j))"
      by (simp_all add: sameSharedGroup_def keyAt_def rooms_def)
    from key [OF ij] obtain g where g: "g \<in> set shared" "infoAt ?rs i \<in> set g" "infoAt ?rs j \<in> set g"
      by blast
    have idx: "originalIndex (infoAt ?rs k) = k" for k by (simp add: infoAt_def)
    note d = bspec [OF dich g(1)]
    show ?thesis
    proof (cases "set g \<subseteq> set ?u")
      case True
      then have "infoAt ?rs i \<in> set ?u" "infoAt ?rs j \<in> set ?u" using g by auto
      then have "i \<in> overflowIndices rnd entries" "j \<in> overflowIndices rnd entries"
        unfolding overflowIndices_def using idx by (metis image_eqI)+
      then show ?thesis by simp
    next
      case False
      have "set g \<inter> set ?u = {} \<and> (\<exists>gen. (gen = male \<or> gen = female) \<and>
          (\<forall>ri\<in>set g. \<exists>x. result st ! originalIndex ri = Some x \<and> gender x = gen))"
        by (rule disjE [OF d]) (simp_all add: False)
      then obtain gen where fill: "set g \<inter> set ?u = {}" "gen = male \<or> gen = female"
          "\<forall>ri\<in>set g. \<exists>x. result st ! originalIndex ri = Some x \<and> gender x = gen"
        by (elim conjE exE)
      have notin: "k \<notin> overflowIndices rnd entries" if "infoAt ?rs k \<in> set g" for k
      proof
        assume "k \<in> overflowIndices rnd entries"
        then obtain ri' where ri': "ri' \<in> set ?u" "originalIndex ri' = k"
          by (auto simp: overflowIndices_def)
        have "infoAt ?rs k \<in> set ?all" using that g(1) by auto
        moreover have "ri' \<in> set ?all" using ri'(1) sub by auto
        ultimately have "infoAt ?rs k = ri'" using inj idx ri'(2) by metis
        then show False using fill(1) that ri'(1) by blast
      qed
      have val: "\<exists>x. arr ! k = Some x \<and> gender x = gen" if "infoAt ?rs k \<in> set g" for k
        using fill(3) that untouched [OF g(1) fill(1) that] idx by (metis (no_types, lifting))
      from val [OF g(2)] val [OF g(3)] obtain x y where
        "arr ! i = Some x" "gender x = gen" "arr ! j = Some y" "gender y = gen" by blast
      then show ?thesis using notin [OF g(2)] notin [OF g(3)] fill(2) by auto
    qed
  qed
  show "\<forall>i<length entries. arr ! i \<noteq> None"
    if canon: "\<forall>d\<in>set entries. gender d = male \<or> gender d = female"
  proof (intro allI impI)
    fix i assume i: "i < length entries"
    have "\<forall>e\<in>set (employees entries). gender e = male \<or> gender e = female"
      using canon by (auto simp: employees_def employeeOf_def)
    then have "length ?m + length ?f = length (employees entries)"
      by (rule length_filter_two) (simp add: male_not_female)
    then have pooled: "length ?m + length ?f = length entries"
      by (simp add: employees_def)
    from pools ust have "length (maleEmployees st) + length (femaleEmployees st) +
        length (concat shared) = length ?m + length ?f + length ?u"
      by (simp add: poolsInvariant_def)
    moreover have "length rem = length (maleEmployees st) + length (femaleEmployees st)"
      using rem by (metis size_mset size_union)
    moreover have "length sl = length single + length ?u"
      using msl by (metis size_mset size_union length_map)
    moreover have "length (concat shared) + length single = length entries"
      using perm(5) n by simp
    ultimately have le: "length sl \<le> length rem" using pooled by simp
    have fst_ps: "fst ` set (zip sl rem) = set sl"
      using map_fst_zip_le [OF le] by (metis set_map)
    from i perm(3) n obtain ri where ri: "ri \<in> set ?all" "originalIndex ri = i"
      by (metis (no_types, lifting) atLeastLessThan_iff image_iff zero_le)
    show "arr ! i \<noteq> None"
    proof (cases "ri \<in> set sl")
      case True
      then obtain p where p: "p \<in> set (zip sl rem)" "fst p = ri"
        using fst_ps by (metis imageE)
      show ?thesis using writeAll_written [OF inr p(1)] p(2) ri(2) by (simp add: arr)
    next
      case False
      then have "ri \<in> set (concat shared)" "ri \<notin> set ?u" using ri(1) ssl by auto
      then obtain g where g: "g \<in> set shared" "ri \<in> set g" by auto
      from bspec [OF dich g(1)] \<open>ri \<notin> set ?u\<close> g(2)
      obtain x where "result st ! originalIndex ri = Some x" by blast
      then have "result st ! i \<noteq> None" using ri(2) by simp
      then show ?thesis
        unfolding arr using writeAll_mono [OF inr, of i] i len n by simp
    qed
  qed
qed

section \<open>The result of the lottery\<close>

text \<open>The list that \<open>performLottery\<close> returns is a permutation of the filled entries of
  the array \<open>result\<close>.\<close>

lemma performLottery_allocation:
  assumes "performLottery rnd entries = Inr (res, rnd'')"
  obtains arr rnd' where "allocation rnd entries = Inr (arr, rnd')" "mset res = mset (filled arr)"
proof -
  from assms obtain arr rnd' where a: "allocation rnd entries = Inr (arr, rnd')"
    and r: "shuffleArray rnd' (filled arr) = (res, rnd'')"
    by (auto simp: performLottery_def split: sum.splits)
  have "mset res = mset (filled arr)"
    using shuffleArray_mset [of rnd' "filled arr"] r by simp
  with a show ?thesis by (rule that)
qed

lemma filled_labels:
  "length arr = length rs \<Longrightarrow> \<forall>i<length rs. \<forall>x. arr ! i = Some x \<longrightarrow> f x = rs ! i \<Longrightarrow>
   mset (map f (filled arr)) \<subseteq># mset rs"
proof (induction arr rs rule: list_induct2)
  case Nil
  show ?case by simp
next
  case (Cons a arr r rs)
  have "\<forall>i<length rs. \<forall>x. arr ! i = Some x \<longrightarrow> f x = rs ! i"
  proof (intro allI impI)
    fix i x assume "i < length rs" "arr ! i = Some x"
    then show "f x = rs ! i" using Cons.prems [rule_format, of "Suc i" x] by simp
  qed
  then have ih: "mset (map f (filled arr)) \<subseteq># mset rs" by (rule Cons.IH)
  show ?case
  proof (cases a)
    case None
    have "mset rs \<subseteq># add_mset r (mset rs)" by simp
    with ih have "mset (map f (filled arr)) \<subseteq># add_mset r (mset rs)"
      by (rule subset_mset.order_trans)
    then show ?thesis using None by simp
  next
    case (Some x)
    have "f x = r" using Cons.prems [rule_format, of 0 x] Some by simp
    then show ?thesis using ih Some by simp
  qed
qed

lemma mset_subset_distinct:
  assumes "mset xs \<subseteq># mset ys" and "distinct ys"
  shows "distinct xs"
proof -
  have "count (mset xs) a = (if a \<in> set xs then 1 else 0)" for a
  proof (cases "a \<in> set xs")
    case True
    have "0 < count (mset xs) a" using True by (rule count_mset_gt_0)
    moreover have "count (mset xs) a \<le> count (mset ys) a"
      using assms(1) by (rule mset_subset_eq_count)
    moreover have "count (mset ys) a \<le> 1"
      using assms(2) by (simp add: distinct_count_atmost_1)
    ultimately have "count (mset xs) a = 1" by linarith
    then show ?thesis using True by simp
  next
    case False
    then show ?thesis by (simp add: count_mset_0_iff)
  qed
  then show ?thesis by (simp add: distinct_count_atmost_1)
qed

lemma mset_subset_set: "mset xs \<subseteq># mset ys \<Longrightarrow> set xs \<subseteq> set ys"
  by (metis set_mset_mono set_mset_mset)

lemma mset_subset_length: "mset xs \<subseteq># mset ys \<Longrightarrow> length xs \<le> length ys"
  by (metis size_mset_mono size_mset)

text \<open>The employees of the result are employees of the input with one of the two
  genders, each at most as often as in the input.\<close>

lemma performLottery_employees:
  assumes "performLottery rnd entries = Inr (res, rnd')"
  shows "mset (map employeeOf res) \<subseteq>#
         mset (filter (\<lambda>e. gender e = male \<or> gender e = female) (employees entries))"
proof -
  obtain arr r where a: "allocation rnd entries = Inr (arr, r)" and m: "mset res = mset (filled arr)"
    using performLottery_allocation [OF assms] by blast
  have "mset (map employeeOf res) = mset (map employeeOf (filled arr))"
    using m by (metis mset_map)
  then show ?thesis using allocation_facts(3) [OF a] by simp
qed

lemma employeeId_employeeOf: "employeeId (employeeOf d) = employeeId d"
  by (simp add: employeeOf_def)

lemma gender_employeeOf: "gender (employeeOf d) = gender d"
  by (simp add: employeeOf_def)

lemma performLottery_employeeIds:
  assumes "performLottery rnd entries = Inr (res, rnd')"
  shows "mset (map employeeId res) \<subseteq># mset (map employeeId entries)"
proof -
  have "mset (map employeeOf res) \<subseteq># mset (employees entries)"
    using performLottery_employees [OF assms]
    by (rule subset_mset.order_trans) simp
  then have "image_mset employeeId (mset (map employeeOf res)) \<subseteq>#
      image_mset employeeId (mset (employees entries))"
    by (rule image_mset_subseteq_mono)
  then show ?thesis
    by (simp add: employees_def multiset.map_comp comp_def employeeId_employeeOf)
qed

text \<open>
  Claim C3. When no employee id occurs twice in the input, every employee id of the
  list that \<open>performLottery\<close> returns is an employee id of the input, and no employee
  id occurs twice in the list.
\<close>

theorem employeeIds_from_input_and_unique:
  assumes "distinct (map employeeId entries)"
    and "performLottery rnd entries = Inr (res, rnd')"
  shows "set (map employeeId res) \<subseteq> set (map employeeId entries) \<and>
         distinct (map employeeId res)"
proof -
  have m: "mset (map employeeId res) \<subseteq># mset (map employeeId entries)"
    by (rule performLottery_employeeIds [OF assms(2)])
  show ?thesis
    using mset_subset_set [OF m] mset_subset_distinct [OF m assms(1)] by simp
qed

theorem employeeIds_from_input_and_unique_witness:
  "distinct (map employeeId twoMen) \<and>
   performLottery zeros twoMen =
     Inr ([row ''E1'' male ''S-1-1-101-B'', row ''E3'' female ''R2'',
           row ''E2'' male ''S-1-1-101-A''], zeros) \<and>
   set (map employeeId [row ''E1'' male ''S-1-1-101-B'', row ''E3'' female ''R2'',
           row ''E2'' male ''S-1-1-101-A'']) \<subseteq> set (map employeeId twoMen) \<and>
   distinct (map employeeId [row ''E1'' male ''S-1-1-101-B'', row ''E3'' female ''R2'',
           row ''E2'' male ''S-1-1-101-A''])"
proof -
  have d: "distinct (map employeeId twoMen)"
    by (simp add: twoMen_def row_def js_def)
  show ?thesis
    using employeeIds_from_input_and_unique [OF d performLottery_twoMen] d performLottery_twoMen
    by simp
qed

text \<open>The room labels of the result are labels of the input, each at most as often as
  in the input.\<close>

lemma performLottery_roomNumbers:
  assumes "performLottery rnd entries = Inr (res, rnd')"
  shows "mset (map roomNumber res) \<subseteq># mset (map roomNumber entries)"
proof -
  obtain arr r where a: "allocation rnd entries = Inr (arr, r)" and m: "mset res = mset (filled arr)"
    using performLottery_allocation [OF assms] by blast
  have "mset (map roomNumber (filled arr)) \<subseteq># mset (map roomNumber entries)"
    by (rule filled_labels) (use allocation_facts(1,2) [OF a] in simp_all)
  moreover have "mset (map roomNumber res) = mset (map roomNumber (filled arr))"
    using m by (metis mset_map)
  ultimately show ?thesis by simp
qed

lemma performLottery_sameLabel:
  "performLottery zeros sameLabel = Inr ([row ''E1'' male ''R1'', row ''E2'' male ''R1''], zeros)"
  by (simp add: lottery_eval sameLabel_def)

text \<open>
  Claim C4, as stated, fails: the reader does not remove repeated room labels, and two
  rows with the label \<open>R1\<close> both appear in the result.
\<close>

theorem roomSlot_twice_counterexample:
  "performLottery zeros sameLabel =
     Inr ([row ''E1'' male ''R1'', row ''E2'' male ''R1''], zeros) \<and>
   \<not> distinct (map roomNumber [row ''E1'' male ''R1'', row ''E2'' male ''R1''])"
  using performLottery_sameLabel by (simp add: row_def)

text \<open>
  Claim C4, amended. Every room label of the list that \<open>performLottery\<close> returns is a
  room label of the input and occurs in the list at most as often as in the input; so
  it occurs at most once when no room label is repeated in the input.
\<close>

theorem roomSlots_from_input:
  assumes "performLottery rnd entries = Inr (res, rnd')"
  shows "set (map roomNumber res) \<subseteq> set (map roomNumber entries) \<and>
         (\<forall>r. count_list (map roomNumber res) r \<le> count_list (map roomNumber entries) r) \<and>
         (distinct (map roomNumber entries) \<longrightarrow> distinct (map roomNumber res))"
proof -
  have m: "mset (map roomNumber res) \<subseteq># mset (map roomNumber entries)"
    by (rule performLottery_roomNumbers [OF assms])
  have "count_list (map roomNumber res) r \<le> count_list (map roomNumber entries) r" for r
    using mset_subset_eq_count [OF m, of r] by (simp only: count_mset)
  then show ?thesis
    using mset_subset_set [OF m] mset_subset_distinct [OF m] by blast
qed

theorem roomSlots_from_input_witness:
  "performLottery zeros twoMen =
     Inr ([row ''E1'' male ''S-1-1-101-B'', row ''E3'' female ''R2'',
           row ''E2'' male ''S-1-1-101-A''], zeros) \<and>
   distinct (map roomNumber twoMen) \<and>
   set (map roomNumber [row ''E1'' male ''S-1-1-101-B'', row ''E3'' female ''R2'',
           row ''E2'' male ''S-1-1-101-A'']) \<subseteq> set (map roomNumber twoMen) \<and>
   distinct (map roomNumber [row ''E1'' male ''S-1-1-101-B'', row ''E3'' female ''R2'',
           row ''E2'' male ''S-1-1-101-A''])"
proof -
  have d: "distinct (map roomNumber twoMen)"
    by (simp add: twoMen_def row_def js_def)
  show ?thesis
    using roomSlots_from_input [OF performLottery_twoMen] d performLottery_twoMen
    by simp
qed

lemma performLottery_unknownGender:
  "performLottery zeros unknownGender = Inr ([row ''E2'' male ''R2''], zeros)"
  by (simp add: lottery_eval unknownGender_def)

lemma overflow_unknownGender: "overflow zeros unknownGender = []"
  by (simp add: lottery_eval unknownGender_def)

lemma overflow_twoMen: "overflow zeros twoMen = []"
  by (simp add: lottery_eval twoMen_def)

text \<open>
  Claim C5, as stated, fails in its second part: with a gender that is neither of the
  two strings, no shared group overflows and there are as many employees as slots, yet
  the result is shorter.
\<close>

theorem result_length_counterexample:
  "performLottery zeros unknownGender = Inr ([row ''E2'' male ''R2''], zeros) \<and>
   overflow zeros unknownGender = [] \<and>
   length (employees unknownGender) = length (rooms unknownGender) \<and>
   length [row ''E2'' male ''R2''] \<noteq>
     min (length (employees unknownGender)) (length (rooms unknownGender))"
  using performLottery_unknownGender overflow_unknownGender
  by (simp add: employees_def rooms_def unknownGender_def)

text \<open>When every gender of the input is one of the two strings, every slot is filled.\<close>

lemma performLottery_length:
  assumes "performLottery rnd entries = Inr (res, rnd')"
  shows "length res \<le> length entries"
    and "(\<forall>d\<in>set entries. gender d = male \<or> gender d = female) \<Longrightarrow> length res = length entries"
proof -
  obtain arr r where a: "allocation rnd entries = Inr (arr, r)" and m: "mset res = mset (filled arr)"
    using performLottery_allocation [OF assms] by blast
  have l: "length res = length (filled arr)" using m by (metis size_mset)
  show "length res \<le> length entries"
    using length_filled_le [of arr] allocation_facts(1) [OF a] l by simp
  assume "\<forall>d\<in>set entries. gender d = male \<or> gender d = female"
  then have "\<forall>i<length arr. arr ! i \<noteq> None"
    using allocation_facts(5) [OF a] allocation_facts(1) [OF a] by simp
  then have "length (filled arr) = length arr" by (rule length_filled_all)
  then show "length res = length entries" using l allocation_facts(1) [OF a] by simp
qed

text \<open>
  Claim C5, amended. The list that \<open>performLottery\<close> returns is at most as long as the
  smaller of \<open>employees\<close> and \<open>rooms\<close>, and exactly as long when, in addition to the
  two conditions of the claim, every gender of the input is one of the two strings.
\<close>

theorem result_length_bound:
  assumes "performLottery rnd entries = Inr (res, rnd')"
  shows "length res \<le> min (length (employees entries)) (length (rooms entries)) \<and>
         ((\<forall>d\<in>set entries. gender d = male \<or> gender d = female) \<and>
          overflow rnd entries = [] \<and>
          length (employees entries) = length (rooms entries) \<longrightarrow>
          length res = min (length (employees entries)) (length (rooms entries)))"
  using performLottery_length [OF assms] by (simp add: employees_def rooms_def)

theorem result_length_bound_witness:
  "performLottery zeros twoMen =
     Inr ([row ''E1'' male ''S-1-1-101-B'', row ''E3'' female ''R2'',
           row ''E2'' male ''S-1-1-101-A''], zeros) \<and>
   map gender twoMen = [male, male, female] \<and>
   overflow zeros twoMen = [] \<and>
   length (employees twoMen) = length (rooms twoMen) \<and>
   length [row ''E1'' male ''S-1-1-101-B'', row ''E3'' female ''R2'',
           row ''E2'' male ''S-1-1-101-A''] =
     min (length (employees twoMen)) (length (rooms twoMen))"
proof -
  have g: "map gender twoMen = [male, male, female]"
    by (simp add: twoMen_def row_def)
  have c: "\<forall>d\<in>set twoMen. gender d = male \<or> gender d = female"
    by (simp add: twoMen_def row_def)
  have e: "length (employees twoMen) = length (rooms twoMen)"
    by (simp add: employees_def rooms_def)
  show ?thesis
    using result_length_bound [OF performLottery_twoMen] c e g overflow_twoMen
      performLottery_twoMen
    by simp
qed

lemma performLottery_unknownGender_halves:
  "performLottery halves unknownGender = Inr ([row ''E2'' male ''R1''], halves)"
  by (simp add: lottery_eval unknownGender_def)

text \<open>
  Claim C10. An entry whose gender is neither of the two strings is in neither pool:
  its employee is not in the list that \<open>performLottery\<close> returns (nor is its employee
  id, when no id is repeated in the input), and the list is shorter than the input
  although \<open>employees\<close> and \<open>rooms\<close> have the same length. Its room is grouped like any
  other and can go to another employee: in the example the room \<open>R1\<close> of the row with
  gender \<open>X\<close> goes to \<open>E2\<close>.
\<close>

theorem unknown_gender_never_assigned:
  "(performLottery rnd entries = Inr (res, rnd') \<and> d \<in> set entries \<and>
    gender d \<noteq> male \<and> gender d \<noteq> female \<longrightarrow>
      employeeOf d \<notin> employeeOf ` set res \<and>
      (distinct (map employeeId entries) \<longrightarrow> employeeId d \<notin> employeeId ` set res) \<and>
      length res < length entries \<and>
      length (employees entries) = length (rooms entries)) \<and>
   performLottery halves unknownGender = Inr ([row ''E2'' male ''R1''], halves) \<and>
   roomNumber (unknownGender ! 0) = roomNumber (row ''E2'' male ''R1'') \<and>
   gender (unknownGender ! 0) \<noteq> male \<and> gender (unknownGender ! 0) \<noteq> female"
proof (intro conjI impI)
  assume h: "performLottery rnd entries = Inr (res, rnd') \<and> d \<in> set entries \<and>
    gender d \<noteq> male \<and> gender d \<noteq> female"
  then have p: "performLottery rnd entries = Inr (res, rnd')" and d: "d \<in> set entries"
    and g: "gender d \<noteq> male" "gender d \<noteq> female" by simp_all
  let ?c = "filter (\<lambda>e. gender e = male \<or> gender e = female) (employees entries)"
  have m: "mset (map employeeOf res) \<subseteq># mset ?c"
    by (rule performLottery_employees [OF p])
  have sub: "set (map employeeOf res) \<subseteq> set ?c" by (rule mset_subset_set [OF m])
  have canon: "gender e = male \<or> gender e = female" if "e \<in> employeeOf ` set res" for e
    using sub that by auto
  show 1: "employeeOf d \<notin> employeeOf ` set res"
    using canon [of "employeeOf d"] g by (auto simp: gender_employeeOf)
  show "employeeId d \<notin> employeeId ` set res" if dist: "distinct (map employeeId entries)"
  proof
    assume "employeeId d \<in> employeeId ` set res"
    then obtain r where r: "r \<in> set res" "employeeId r = employeeId d" by auto
    then have "employeeOf r \<in> set ?c" using sub by auto
    then obtain d' where d': "d' \<in> set entries" "employeeOf d' = employeeOf r"
      by (auto simp: employees_def)
    then have "employeeId d' = employeeId d"
      using r(2) by (metis employeeId_employeeOf)
    then have "d' = d"
      using dist d d'(1) by (meson distinct_map inj_onD)
    then have "employeeOf d \<in> employeeOf ` set res" using d'(2) r(1) by auto
    then show False using 1 by simp
  qed
  have "employeeOf d \<in> set (employees entries)" using d by (simp add: employees_def)
  moreover have "\<not> (gender (employeeOf d) = male \<or> gender (employeeOf d) = female)"
    using g by (simp add: gender_employeeOf)
  ultimately have "length ?c < length (employees entries)"
    by (rule length_filter_less)
  moreover have "length res \<le> length ?c"
    using mset_subset_length [OF m] by simp
  ultimately show "length res < length entries" by (simp add: employees_def)
  show "length (employees entries) = length (rooms entries)"
    by (simp add: employees_def rooms_def)
next
  show "performLottery halves unknownGender = Inr ([row ''E2'' male ''R1''], halves)"
    by (rule performLottery_unknownGender_halves)
  show "roomNumber (unknownGender ! 0) = roomNumber (row ''E2'' male ''R1'')"
    by (simp add: unknownGender_def row_def)
  show "gender (unknownGender ! 0) \<noteq> male"
    by (simp add: unknownGender_def row_def js_def male_def)
  show "gender (unknownGender ! 0) \<noteq> female"
    by (simp add: unknownGender_def row_def js_def female_def)
qed

theorem unknown_gender_never_assigned_witness:
  "performLottery zeros unknownGender = Inr ([row ''E2'' male ''R2''], zeros) \<and>
   row ''E1'' (js ''X'') ''R1'' \<in> set unknownGender \<and>
   gender (row ''E1'' (js ''X'') ''R1'') \<noteq> male \<and>
   gender (row ''E1'' (js ''X'') ''R1'') \<noteq> female \<and>
   distinct (map employeeId unknownGender) \<and>
   employeeId (row ''E1'' (js ''X'') ''R1'') \<notin> employeeId ` set [row ''E2'' male ''R2''] \<and>
   length [row ''E2'' male ''R2''] < length unknownGender"
proof -
  have 1: "row ''E1'' (js ''X'') ''R1'' \<in> set unknownGender" by (simp add: unknownGender_def)
  have 2: "gender (row ''E1'' (js ''X'') ''R1'') \<noteq> male"
    by (simp add: row_def js_def male_def)
  have 3: "gender (row ''E1'' (js ''X'') ''R1'') \<noteq> female"
    by (simp add: row_def js_def female_def)
  have 4: "distinct (map employeeId unknownGender)"
    by (simp add: unknownGender_def row_def js_def)
  show ?thesis
    using unknown_gender_never_assigned [of zeros unknownGender "[row ''E2'' male ''R2'']" zeros
        "row ''E1'' (js ''X'') ''R1''", THEN conjunct1]
      performLottery_unknownGender 1 2 3 4
    by simp
qed

section \<open>The overflow list in the loop over the single rooms\<close>

lemma sharedPhase_start:
  "sharedPhase rnd entries =
     (case sharedStart rnd entries of
        Inl e \<Rightarrow> Inl e
      | Inr (sharedRooms, st0, singleRooms) \<Rightarrow>
          (case sharedLoop sharedRooms st0 of
             Inl e \<Rightarrow> Inl e
           | Inr st \<Rightarrow> Inr (st, singleRooms)))"
  by (simp add: sharedPhase_def sharedStart_def Let_def case_prod_beta split: sum.splits)

lemma singlePhase_loop:
  "singlePhase st singleRooms =
     (case singleLoop (singleRoomsShuffled st singleRooms) (remainingShuffled st) (result st) of
        Inl e \<Rightarrow> Inl e
      | Inr arr \<Rightarrow>
          Inr (arr, snd (shuffleArray (snd (shuffleArray (random st)
                 (maleEmployees st @ femaleEmployees st))) (allSingleRooms st singleRooms))))"
  by (simp add: singlePhase_def singleRoomsShuffled_def remainingShuffled_def Let_def
        case_prod_beta split: sum.splits)

lemma sharedLoop_append:
  "sharedLoop (gs @ hs) st =
     (case sharedLoop gs st of Inl e \<Rightarrow> Inl e | Inr st' \<Rightarrow> sharedLoop hs st')"
  by (induction gs arbitrary: st) (auto split: sum.splits)

lemma sharedStep_overflow_mset:
  assumes "sharedStep st g = Inr st'"
  shows "mset (unassignedSharedRooms st') \<subseteq># mset (unassignedSharedRooms st) + mset g"
proof (cases rule: sharedStep_cases [of st g])
  case shortage
  then show ?thesis using assms by simp
next
  case (males rnd')
  then have "unassignedSharedRooms st' = unassignedSharedRooms st" using assms by auto
  then show ?thesis by simp
next
  case (females rnd')
  then have "unassignedSharedRooms st' = unassignedSharedRooms st" using assms by auto
  then show ?thesis by simp
qed

lemma sharedLoop_overflow_mset:
  assumes "sharedLoop gs st = Inr st'"
  shows "mset (unassignedSharedRooms st') \<subseteq># mset (unassignedSharedRooms st) + mset (concat gs)"
  using assms
proof (induction gs arbitrary: st)
  case Nil
  then show ?case by simp
next
  case (Cons g gs)
  from Cons.prems obtain st1 where 1: "sharedStep st g = Inr st1" and 2: "sharedLoop gs st1 = Inr st'"
    by (auto split: sum.splits)
  have "mset (unassignedSharedRooms st') \<subseteq># mset (unassignedSharedRooms st1) + mset (concat gs)"
    by (rule Cons.IH [OF 2])
  also have "\<dots> \<subseteq># (mset (unassignedSharedRooms st) + mset g) + mset (concat gs)"
    using sharedStep_overflow_mset [OF 1] by (rule subset_mset.add_right_mono)
  finally show ?case by (simp add: add.assoc)
qed

lemma writeAll_nth:
  assumes "distinct (map originalIndex sl)"
    and "\<forall>ri\<in>set sl. originalIndex ri < length res"
    and "p < length sl"
  shows "writeAll (zip sl rem) res ! originalIndex (sl ! p) =
           (if p < length rem then Some (assignment (rem ! p) (sl ! p))
            else res ! originalIndex (sl ! p))"
  using assms
proof (induction sl arbitrary: rem res p)
  case Nil
  then show ?case by simp
next
  case (Cons ri sl)
  show ?case
  proof (cases rem)
    case Nil
    then show ?thesis by simp
  next
    case (Cons e rem')
    let ?res = "arraySet res (originalIndex ri) (assignment e ri)"
    have len: "length ?res = length res"
      using Cons.prems(2) by (simp add: arraySet_length)
    have inr: "\<forall>q\<in>set (zip sl rem'). originalIndex (fst q) < length ?res"
      using Cons.prems(2) len by (auto dest: set_zip_leftD)
    have notin: "originalIndex ri \<notin> originalIndex ` set sl"
      using Cons.prems(1) by auto
    show ?thesis
    proof (cases p)
      case 0
      have "fst ` set (zip sl rem') \<subseteq> set sl" by (auto dest: set_zip_leftD)
      then have "originalIndex ri \<notin> originalIndex ` fst ` set (zip sl rem')"
        using notin by blast
      then have "writeAll (zip sl rem') ?res ! originalIndex ri = ?res ! originalIndex ri"
        using writeAll_frame [OF inr, of "originalIndex ri"] Cons.prems(2) len by simp
      then show ?thesis using 0 Cons Cons.prems(2) by (simp add: arraySet_nth)
    next
      case (Suc p')
      have p': "p' < length sl" using Cons.prems(3) Suc by simp
      have d: "distinct (map originalIndex sl)" using Cons.prems(1) by simp
      have r: "\<forall>ri\<in>set sl. originalIndex ri < length ?res" using Cons.prems(2) len by simp
      have ne: "originalIndex (sl ! p') \<noteq> originalIndex ri"
        using notin p' by (metis image_eqI nth_mem)
      have "writeAll (zip sl rem') ?res ! originalIndex (sl ! p') =
          (if p' < length rem' then Some (assignment (rem' ! p') (sl ! p'))
           else ?res ! originalIndex (sl ! p'))"
        by (rule Cons.IH [OF d r p'])
      moreover have "?res ! originalIndex (sl ! p') = res ! originalIndex (sl ! p')"
        using ne Cons.prems(2) p' by (simp add: arraySet_nth)
      ultimately show ?thesis using Suc Cons by simp
    qed
  qed
qed

text \<open>The state after the loop over the shared rooms.\<close>

lemma sharedPhase_state:
  assumes sp: "sharedPhase rnd entries = Inr (st, single)"
  obtains shared where
    "slotsInvariant (rooms entries) shared (unassignedSharedRooms st) (result st)"
    "mset (map Some (concat shared)) + mset single =
       mset (map (\<lambda>i. Some (infoAt (rooms entries) i)) [0..<length (rooms entries)])"
    "mset (unassignedSharedRooms st) \<subseteq># mset (concat shared)"
proof -
  let ?rs = "rooms entries"
  let ?m = "filter (\<lambda>e. gender e = male) (employees entries)"
  let ?f = "filter (\<lambda>e. gender e = female) (employees entries)"
  from sp obtain shared0 where an: "analyseRooms ?rs = Inr (shared0, single)"
    by (auto simp: sharedPhase_def Let_def split: sum.splits prod.splits)
  let ?r1 = "snd (shuffleArray rnd ?m)"
  let ?r2 = "snd (shuffleArray ?r1 ?f)"
  let ?st0 = "\<lparr>maleEmployees = fst (shuffleArray rnd ?m),
      femaleEmployees = fst (shuffleArray ?r1 ?f),
      result = replicate (length entries) None, unassignedSharedRooms = [],
      random = snd (shuffleArray ?r2 shared0)\<rparr>"
  let ?shared = "fst (shuffleArray ?r2 shared0)"
  from sp an have loop: "sharedLoop ?shared ?st0 = Inr st"
    by (auto simp: sharedPhase_def Let_def split: sum.splits prod.splits)
  have len: "length ?rs = length entries" by (simp add: rooms_def)
  have ms0: "mset (map Some (concat shared0)) + mset single =
       mset (map (\<lambda>i. Some (infoAt ?rs i)) [0..<length ?rs])"
    by (rule analyseRooms_slots(1) [OF an])
  have cc: "mset (concat ?shared) = mset (concat shared0)"
    by (rule mset_concat_cong) (rule shuffleArray_mset)
  then have ms: "mset (map Some (concat ?shared)) + mset single =
       mset (map (\<lambda>i. Some (infoAt ?rs i)) [0..<length ?rs])"
    using ms0 by simp
  have "\<forall>x\<in>set single. x \<noteq> None"
    using ms by (metis (no_types, lifting) ex_map_conv option.distinct(1) set_mset_mset union_iff)
  then have "map Some (map the single) = single" by (rule all_Some_map)
  then have "mset (map Some (concat ?shared @ map the single)) =
       mset (map (\<lambda>i. Some (infoAt ?rs i)) [0..<length ?rs])"
    using ms by simp
  note perm = slots_permutation [OF this]
  have dist: "distinct (map originalIndex (concat ([] @ ?shared)))"
    using perm(2) by simp
  have wf: "\<forall>ri\<in>set (concat ([] @ ?shared)). wellIndexed ?rs ri"
    using perm(4) by simp
  have s0: "slotsInvariant ?rs [] (unassignedSharedRooms ?st0) (result ?st0)"
    using slotsInvariant_initial [of ?rs] by (simp add: len)
  have p0: "poolsInvariant (length ?m + length ?f) [] ?st0"
    unfolding poolsInvariant_def
  proof (intro conjI)
    show "\<forall>e\<in>set (maleEmployees ?st0). gender e = male"
      by (simp add: shuffleArray_set)
    show "\<forall>e\<in>set (femaleEmployees ?st0). gender e = female"
      by (simp add: shuffleArray_set)
    show "length (maleEmployees ?st0) + length (femaleEmployees ?st0) + length (concat []) =
        length ?m + length ?f + length (unassignedSharedRooms ?st0)"
      by (simp add: shuffleArray_length)
  qed
  have inv: "slotsInvariant ?rs ([] @ ?shared) (unassignedSharedRooms st) (result st) \<and>
      poolsInvariant (length ?m + length ?f) ([] @ ?shared) st"
    by (rule sharedLoop_invariant [OF s0 p0 loop dist wf])
  have u: "mset (unassignedSharedRooms st) \<subseteq># mset (concat ?shared)"
    using sharedLoop_overflow_mset [OF loop] by simp
  show ?thesis
    by (rule that [of ?shared]) (use inv ms u in simp_all)
qed

text \<open>The loop over the single rooms never raises, and a slot of the overflow list is
  treated in it like a single room.\<close>

lemma singlePhase_overflow:
  assumes sp: "sharedPhase rnd entries = Inr (st, single)"
  shows "\<exists>arr rnd'. singlePhase st single = Inr (arr, rnd') \<and>
           singleLoop (singleRoomsShuffled st single) (remainingShuffled st) (result st) = Inr arr \<and>
           (\<forall>ri\<in>set (unassignedSharedRooms st).
              ri = infoAt (rooms entries) (originalIndex ri) \<and>
              originalIndex ri < length entries \<and>
              (\<exists>p<length (singleRoomsShuffled st single).
                 singleRoomsShuffled st single ! p = Some ri \<and>
                 arr ! originalIndex ri =
                   (if p < length (remainingShuffled st)
                    then Some (assignment (remainingShuffled st ! p) ri) else None)))"
proof -
  let ?rs = "rooms entries"
  let ?u = "unassignedSharedRooms st"
  let ?slots = "singleRoomsShuffled st single"
  let ?rem = "remainingShuffled st"
  obtain shared where slots: "slotsInvariant ?rs shared ?u (result st)"
    and ms: "mset (map Some (concat shared)) + mset single =
       mset (map (\<lambda>i. Some (infoAt ?rs i)) [0..<length ?rs])"
    and u: "mset ?u \<subseteq># mset (concat shared)"
    using sharedPhase_state [OF sp] by metis
  have n: "length ?rs = length entries" by (simp add: rooms_def)
  from slots have len: "length (result st) = length ?rs"
    and unf: "\<forall>ri\<in>set ?u. result st ! originalIndex ri = None"
    unfolding slotsInvariant_def by blast+
  let ?all = "concat shared @ map the single"
  have "\<forall>x\<in>set single. x \<noteq> None"
    using ms by (metis (no_types, lifting) ex_map_conv option.distinct(1) set_mset_mset union_iff)
  then have single: "map Some (map the single) = single" by (rule all_Some_map)
  then have "mset (map Some ?all) = mset (map (\<lambda>i. Some (infoAt ?rs i)) [0..<length ?rs])"
    using ms by simp
  note perm = slots_permutation [OF this]
  have mslots: "mset ?slots = mset single + mset (map Some ?u)"
    by (simp add: singleRoomsShuffled_def shuffleArray_mset allSingleRooms_def)
  then have "\<forall>x\<in>set ?slots. x \<noteq> None"
    using \<open>\<forall>x\<in>set single. x \<noteq> None\<close>
    by (metis (no_types, lifting) ex_map_conv option.distinct(1) set_mset_mset union_iff)
  then have some: "map Some (map the ?slots) = ?slots" by (rule all_Some_map)
  let ?sl = "map the ?slots"
  have "mset (map the ?slots) = mset (map the single) + mset (map the (map Some ?u))"
    using mslots by (metis mset_map image_mset_union)
  then have msl: "mset ?sl = mset (map the single) + mset ?u" by (simp add: comp_def)
  have "mset (map the single) + mset ?u \<subseteq># mset (map the single) + mset (concat shared)"
    using u by (rule subset_mset.add_left_mono)
  then have sub: "mset ?sl \<subseteq># mset ?all" using msl by (simp add: add.commute)
  have "mset (map originalIndex ?sl) \<subseteq># mset (map originalIndex ?all)"
    using image_mset_subseteq_mono [OF sub, of originalIndex] by (simp add: multiset.map_comp)
  then have dsl: "distinct (map originalIndex ?sl)"
    using perm(2) by (rule mset_subset_distinct)
  have slall: "set ?sl \<subseteq> set ?all" using sub by (rule mset_subset_set)
  have slwf: "\<forall>ri\<in>set ?sl. wellIndexed ?rs ri" using perm(4) slall by blast
  have inr: "\<forall>ri\<in>set ?sl. originalIndex ri < length (result st)"
    using slwf len by (simp add: wellIndexed_def)
  let ?arr = "writeAll (zip ?sl ?rem) (result st)"
  have loop: "singleLoop ?slots ?rem (result st) = Inr ?arr"
    using singleLoop_eq [of ?sl ?rem "result st"] by (simp only: some)
  have phase: "singlePhase st single = Inr (?arr, snd (shuffleArray (snd (shuffleArray (random st)
                 (maleEmployees st @ femaleEmployees st))) (allSingleRooms st single)))"
    by (simp add: singlePhase_loop loop)
  have each: "ri = infoAt ?rs (originalIndex ri) \<and> originalIndex ri < length entries \<and>
      (\<exists>p<length ?slots. ?slots ! p = Some ri \<and>
         ?arr ! originalIndex ri =
           (if p < length ?rem then Some (assignment (?rem ! p) ri) else None))"
    if ri: "ri \<in> set ?u" for ri
  proof -
    have "ri \<in> set ?sl" using msl ri by (metis set_mset_mset union_iff)
    then obtain p where p: "p < length ?sl" "?sl ! p = ri" by (metis in_set_conv_nth)
    have sp1: "?slots ! p = Some ri"
      using p some by (metis length_map nth_map)
    have "writeAll (zip ?sl ?rem) (result st) ! originalIndex (?sl ! p) =
        (if p < length ?rem then Some (assignment (?rem ! p) (?sl ! p))
         else result st ! originalIndex (?sl ! p))"
      by (rule writeAll_nth [OF dsl inr p(1)])
    then have w: "?arr ! originalIndex ri =
        (if p < length ?rem then Some (assignment (?rem ! p) ri) else None)"
      using p(2) unf ri by simp
    have "ri \<in> set ?all" using \<open>ri \<in> set ?sl\<close> slall by blast
    then have "ri \<in> set (map (infoAt ?rs) [0..<length ?rs])"
      using perm(1) by (metis set_mset_mset)
    then have i: "ri = infoAt ?rs (originalIndex ri) \<and> originalIndex ri < length entries"
      using n by (auto simp: infoAt_def)
    show ?thesis using i sp1 w p(1) by auto
  qed
  show ?thesis
    using phase loop each by blast
qed

text \<open>
  Claim C1. When a shared room group is reached in the loop and neither pool holds as
  many employees as the group has slots, the iteration appends all slots of the group
  to \<open>unassignedSharedRooms\<close> and changes nothing else: both pools, the result array
  and the random source stay as they are. In every run of \<open>performLottery\<close> in which
  this happens (the group \<open>roomGroup\<close> is reached in state \<open>st\<close>, after the groups
  \<open>seen\<close>), the rest of the loop returns, the slots of the group are still in the
  list when it ends, and the loop over the single rooms treats each of them as a single
  room: the slot stands at some position \<open>p\<close> of the shuffled array
  \<open>allSingleRooms\<close>, and it receives the employee at position \<open>p\<close> of the shuffled
  remaining employees, or stays empty when there are no more than \<open>p\<close> of them.
\<close>

theorem shortage_moves_group_to_overflow:
  assumes "length (maleEmployees st) < length roomGroup"
    and "length (femaleEmployees st) < length roomGroup"
  shows "sharedStep st roomGroup =
           Inr (st\<lparr>unassignedSharedRooms := unassignedSharedRooms st @ roomGroup\<rparr>) \<and>
         (\<forall>rnd entries seen sharedRooms st0 singleRooms.
            sharedStart rnd entries = Inr (seen @ roomGroup # sharedRooms, st0, singleRooms) \<and>
            sharedLoop seen st0 = Inr st \<longrightarrow>
            (\<exists>st' arr rnd'.
               sharedLoop sharedRooms
                 (st\<lparr>unassignedSharedRooms := unassignedSharedRooms st @ roomGroup\<rparr>) = Inr st' \<and>
               sharedPhase rnd entries = Inr (st', singleRooms) \<and>
               set roomGroup \<subseteq> set (unassignedSharedRooms st') \<and>
               singlePhase st' singleRooms = Inr (arr, rnd') \<and>
               singleLoop (singleRoomsShuffled st' singleRooms) (remainingShuffled st')
                 (result st') = Inr arr \<and>
               (\<forall>roomInfo\<in>set roomGroup.
                  \<exists>p<length (singleRoomsShuffled st' singleRooms).
                    singleRoomsShuffled st' singleRooms ! p = Some roomInfo \<and>
                    arr ! originalIndex roomInfo =
                      (if p < length (remainingShuffled st')
                       then Some (assignment (remainingShuffled st' ! p) roomInfo)
                       else None))))"
proof (intro conjI allI impI)
  let ?st1 = "st\<lparr>unassignedSharedRooms := unassignedSharedRooms st @ roomGroup\<rparr>"
  show 1: "sharedStep st roomGroup = Inr ?st1"
    using assms by (simp add: sharedStep_def selectPool_def)
  fix rnd entries seen sharedRooms st0 singleRooms
  assume a: "sharedStart rnd entries = Inr (seen @ roomGroup # sharedRooms, st0, singleRooms) \<and>
            sharedLoop seen st0 = Inr st"
  obtain st' where 2: "sharedLoop sharedRooms ?st1 = Inr st'"
    using sharedLoop_returns by blast
  have "sharedLoop (seen @ roomGroup # sharedRooms) st0 = Inr st'"
    using a 1 2 by (simp add: sharedLoop_append)
  then have sp: "sharedPhase rnd entries = Inr (st', singleRooms)"
    using a by (simp add: sharedPhase_start)
  have sub: "set roomGroup \<subseteq> set (unassignedSharedRooms st')"
    using sharedLoop_unassigned [OF 2] by simp
  from singlePhase_overflow [OF sp] obtain arr rnd' where
    ph: "singlePhase st' singleRooms = Inr (arr, rnd')"
    and lp: "singleLoop (singleRoomsShuffled st' singleRooms) (remainingShuffled st')
                 (result st') = Inr arr"
    and each: "\<forall>ri\<in>set (unassignedSharedRooms st').
              ri = infoAt (rooms entries) (originalIndex ri) \<and>
              originalIndex ri < length entries \<and>
              (\<exists>p<length (singleRoomsShuffled st' singleRooms).
                 singleRoomsShuffled st' singleRooms ! p = Some ri \<and>
                 arr ! originalIndex ri =
                   (if p < length (remainingShuffled st')
                    then Some (assignment (remainingShuffled st' ! p) ri) else None))"
    by blast
  have "\<forall>roomInfo\<in>set roomGroup.
                  \<exists>p<length (singleRoomsShuffled st' singleRooms).
                    singleRoomsShuffled st' singleRooms ! p = Some roomInfo \<and>
                    arr ! originalIndex roomInfo =
                      (if p < length (remainingShuffled st')
                       then Some (assignment (remainingShuffled st' ! p) roomInfo)
                       else None)"
    using each sub by blast
  then show "\<exists>st' arr rnd'.
               sharedLoop sharedRooms ?st1 = Inr st' \<and>
               sharedPhase rnd entries = Inr (st', singleRooms) \<and>
               set roomGroup \<subseteq> set (unassignedSharedRooms st') \<and>
               singlePhase st' singleRooms = Inr (arr, rnd') \<and>
               singleLoop (singleRoomsShuffled st' singleRooms) (remainingShuffled st')
                 (result st') = Inr arr \<and>
               (\<forall>roomInfo\<in>set roomGroup.
                  \<exists>p<length (singleRoomsShuffled st' singleRooms).
                    singleRoomsShuffled st' singleRooms ! p = Some roomInfo \<and>
                    arr ! originalIndex roomInfo =
                      (if p < length (remainingShuffled st')
                       then Some (assignment (remainingShuffled st' ! p) roomInfo)
                       else None))"
    using 2 sp sub ph lp by blast
qed

lemmas overflow_eval = lottery_eval sharedStart_def singleRoomsShuffled_def remainingShuffled_def
  infoAt_def mixedPair_def

theorem shortage_moves_group_to_overflow_witness:
  "length (maleEmployees
     \<lparr>maleEmployees = [employeeOf (row ''E1'' male ''S-1-1-101-A'')],
      femaleEmployees = [employeeOf (row ''E2'' female ''S-1-1-101-B'')],
      result = [None, None], unassignedSharedRooms = [], random = zeros\<rparr>) <
   length [infoAt (rooms mixedPair) 0, infoAt (rooms mixedPair) 1] \<and>
   length (femaleEmployees
     \<lparr>maleEmployees = [employeeOf (row ''E1'' male ''S-1-1-101-A'')],
      femaleEmployees = [employeeOf (row ''E2'' female ''S-1-1-101-B'')],
      result = [None, None], unassignedSharedRooms = [], random = zeros\<rparr>) <
   length [infoAt (rooms mixedPair) 0, infoAt (rooms mixedPair) 1] \<and>
   sharedStart zeros mixedPair =
     Inr ([] @ [infoAt (rooms mixedPair) 0, infoAt (rooms mixedPair) 1] # [],
          \<lparr>maleEmployees = [employeeOf (row ''E1'' male ''S-1-1-101-A'')],
           femaleEmployees = [employeeOf (row ''E2'' female ''S-1-1-101-B'')],
           result = [None, None], unassignedSharedRooms = [], random = zeros\<rparr>, []) \<and>
   sharedLoop []
     \<lparr>maleEmployees = [employeeOf (row ''E1'' male ''S-1-1-101-A'')],
      femaleEmployees = [employeeOf (row ''E2'' female ''S-1-1-101-B'')],
      result = [None, None], unassignedSharedRooms = [], random = zeros\<rparr> =
     Inr \<lparr>maleEmployees = [employeeOf (row ''E1'' male ''S-1-1-101-A'')],
          femaleEmployees = [employeeOf (row ''E2'' female ''S-1-1-101-B'')],
          result = [None, None], unassignedSharedRooms = [], random = zeros\<rparr> \<and>
   sharedStep
     \<lparr>maleEmployees = [employeeOf (row ''E1'' male ''S-1-1-101-A'')],
      femaleEmployees = [employeeOf (row ''E2'' female ''S-1-1-101-B'')],
      result = [None, None], unassignedSharedRooms = [], random = zeros\<rparr>
     [infoAt (rooms mixedPair) 0, infoAt (rooms mixedPair) 1] =
     Inr \<lparr>maleEmployees = [employeeOf (row ''E1'' male ''S-1-1-101-A'')],
          femaleEmployees = [employeeOf (row ''E2'' female ''S-1-1-101-B'')],
          result = [None, None],
          unassignedSharedRooms = [infoAt (rooms mixedPair) 0, infoAt (rooms mixedPair) 1],
          random = zeros\<rparr> \<and>
   sharedPhase zeros mixedPair =
     Inr (\<lparr>maleEmployees = [employeeOf (row ''E1'' male ''S-1-1-101-A'')],
           femaleEmployees = [employeeOf (row ''E2'' female ''S-1-1-101-B'')],
           result = [None, None],
           unassignedSharedRooms = [infoAt (rooms mixedPair) 0, infoAt (rooms mixedPair) 1],
           random = zeros\<rparr>, []) \<and>
   singleRoomsShuffled
     \<lparr>maleEmployees = [employeeOf (row ''E1'' male ''S-1-1-101-A'')],
      femaleEmployees = [employeeOf (row ''E2'' female ''S-1-1-101-B'')],
      result = [None, None],
      unassignedSharedRooms = [infoAt (rooms mixedPair) 0, infoAt (rooms mixedPair) 1],
      random = zeros\<rparr> [] =
     [Some (infoAt (rooms mixedPair) 1), Some (infoAt (rooms mixedPair) 0)] \<and>
   remainingShuffled
     \<lparr>maleEmployees = [employeeOf (row ''E1'' male ''S-1-1-101-A'')],
      femaleEmployees = [employeeOf (row ''E2'' female ''S-1-1-101-B'')],
      result = [None, None],
      unassignedSharedRooms = [infoAt (rooms mixedPair) 0, infoAt (rooms mixedPair) 1],
      random = zeros\<rparr> =
     [employeeOf (row ''E2'' female ''S-1-1-101-B''),
      employeeOf (row ''E1'' male ''S-1-1-101-A'')] \<and>
   singlePhase
     \<lparr>maleEmployees = [employeeOf (row ''E1'' male ''S-1-1-101-A'')],
      femaleEmployees = [employeeOf (row ''E2'' female ''S-1-1-101-B'')],
      result = [None, None],
      unassignedSharedRooms = [infoAt (rooms mixedPair) 0, infoAt (rooms mixedPair) 1],
      random = zeros\<rparr> [] =
     Inr ([Some (row ''E1'' male ''S-1-1-101-A''), Some (row ''E2'' female ''S-1-1-101-B'')],
          zeros)"
proof -
  let ?st0 = "\<lparr>maleEmployees = [employeeOf (row ''E1'' male ''S-1-1-101-A'')],
      femaleEmployees = [employeeOf (row ''E2'' female ''S-1-1-101-B'')],
      result = [None, None], unassignedSharedRooms = [], random = zeros\<rparr>"
  let ?g = "[infoAt (rooms mixedPair) 0, infoAt (rooms mixedPair) 1]"
  let ?st1 = "\<lparr>maleEmployees = [employeeOf (row ''E1'' male ''S-1-1-101-A'')],
      femaleEmployees = [employeeOf (row ''E2'' female ''S-1-1-101-B'')],
      result = [None, None],
      unassignedSharedRooms = [infoAt (rooms mixedPair) 0, infoAt (rooms mixedPair) 1],
      random = zeros\<rparr>"
  have m: "length (maleEmployees ?st0) < length ?g" by simp
  have f: "length (femaleEmployees ?st0) < length ?g" by simp
  have start: "sharedStart zeros mixedPair = Inr ([] @ ?g # [], ?st0, [])"
    by (simp add: overflow_eval)
  have seen: "sharedLoop [] ?st0 = Inr ?st0" by simp
  have upd: "?st0\<lparr>unassignedSharedRooms := unassignedSharedRooms ?st0 @ ?g\<rparr> = ?st1" by simp
  note t = shortage_moves_group_to_overflow [OF m f, unfolded upd]
  have step: "sharedStep ?st0 ?g = Inr ?st1" using t by (rule conjunct1)
  from t [THEN conjunct2, rule_format, OF conjI [OF start seen]]
  obtain st' arr rnd' where rest: "sharedLoop [] ?st1 = Inr st'"
    and sp: "sharedPhase zeros mixedPair = Inr (st', [])"
    and ph: "singlePhase st' [] = Inr (arr, rnd')"
    by (elim exE conjE)
  have st': "st' = ?st1" using rest by simp
  have slots: "singleRoomsShuffled ?st1 [] =
      [Some (infoAt (rooms mixedPair) 1), Some (infoAt (rooms mixedPair) 0)]"
    by (simp add: overflow_eval)
  have rem: "remainingShuffled ?st1 =
     [employeeOf (row ''E2'' female ''S-1-1-101-B''),
      employeeOf (row ''E1'' male ''S-1-1-101-A'')]"
    by (simp add: overflow_eval)
  have single: "singlePhase ?st1 [] =
     Inr ([Some (row ''E1'' male ''S-1-1-101-A''), Some (row ''E2'' female ''S-1-1-101-B'')],
          zeros)"
    by (simp add: overflow_eval)
  show ?thesis
    using m f start seen step sp [unfolded st'] slots rem single
    by (intro conjI)
qed

section \<open>Shared room groups in the result\<close>

lemma performLottery_mixedPair:
  "performLottery zeros mixedPair =
     Inr ([row ''E2'' female ''S-1-1-101-B'', row ''E1'' male ''S-1-1-101-A''], zeros)"
  by (simp add: lottery_eval mixedPair_def)

text \<open>
  Claim C2, as stated, fails in its last part: a man and a woman and one apartment with
  two bedrooms. Neither pool can fill the group, its two slots are treated as single
  rooms, and the result holds two entries of different genders in the same base room.
\<close>

theorem shared_group_mixed_counterexample:
  "performLottery zeros mixedPair =
     Inr ([row ''E2'' female ''S-1-1-101-B'', row ''E1'' male ''S-1-1-101-A''], zeros) \<and>
   baseRoom (parseRoomNumber (roomNumber (row ''E2'' female ''S-1-1-101-B''))) =
     baseRoom (parseRoomNumber (roomNumber (row ''E1'' male ''S-1-1-101-A''))) \<and>
   gender (row ''E2'' female ''S-1-1-101-B'') \<noteq> gender (row ''E1'' male ''S-1-1-101-A'')"
  using performLottery_mixedPair
  by (simp add: row_def js_def parseRoomNumber_def dash_def isLetter_def male_def female_def)

lemma filled_eq: "filled xs = map the (filter (\<lambda>x. x \<noteq> None) xs)"
  by (induction xs rule: filled.induct) auto

lemma filled_rows:
  assumes "\<forall>k<length arr. P k \<longrightarrow> arr ! k \<noteq> None"
  shows "mset (map (\<lambda>k. the (arr ! k)) (filter P [0..<length arr])) \<subseteq># mset (filled arr)"
proof -
  let ?ks = "filter P [0..<length arr]"
  let ?A = "image_mset ((!) arr) (mset ?ks)"
  have "mset ?ks \<subseteq># mset [0..<length arr]"
    by (simp only: mset_filter multiset_filter_subset)
  then have "?A \<subseteq># image_mset ((!) arr) (mset [0..<length arr])"
    by (rule image_mset_subseteq_mono)
  also have "\<dots> = mset (map ((!) arr) [0..<length arr])" by simp
  also have "\<dots> = mset arr" by (simp only: map_nth)
  finally have "filter_mset (\<lambda>x. x \<noteq> None) ?A \<subseteq># filter_mset (\<lambda>x. x \<noteq> None) (mset arr)"
    by (rule multiset_filter_mono)
  moreover have "filter_mset (\<lambda>x. x \<noteq> None) ?A = filter_mset (\<lambda>x. True) ?A"
    by (rule filter_mset_cong0) (use assms in auto)
  ultimately have "?A \<subseteq># filter_mset (\<lambda>x. x \<noteq> None) (mset arr)" by simp
  then have "image_mset the ?A \<subseteq># image_mset the (filter_mset (\<lambda>x. x \<noteq> None) (mset arr))"
    by (rule image_mset_subseteq_mono)
  moreover have "image_mset the ?A = mset (map (\<lambda>k. the (arr ! k)) ?ks)"
    by (simp add: multiset.map_comp comp_def)
  moreover have "image_mset the (filter_mset (\<lambda>x. x \<noteq> None) (mset arr)) = mset (filled arr)"
    by (simp add: filled_eq)
  ultimately show ?thesis by simp
qed

lemma groupRows_iff:
  "k \<in> set (groupRows entries i) \<longleftrightarrow> k < length entries \<and> keyAt entries k = keyAt entries i"
  by (auto simp: groupRows_def)

text \<open>
  Claim C2, amended. Two rows \<open>i\<close> and \<open>j\<close> of the input whose rooms have the same
  base room are two slots of one shared group, whose slots are the rows
  \<open>groupRows entries i\<close>. In a run that returns, with the array \<open>result\<close> as it is
  before the filter (\<open>arr\<close>), one of two things holds of the group. Either every slot
  of the group went to the overflow list; then each slot is treated as a single room: it
  stands at some position \<open>p\<close> of the shuffled array \<open>allSingleRooms\<close> and receives
  the employee at position \<open>p\<close> of the shuffled remaining employees of both pools, or
  stays empty when there are no more than \<open>p\<close> of them. Or no slot of the group went
  to the overflow list; then every slot of the group is filled, slot by slot, with an
  entry that carries the room of the slot and one and the same gender, one of the two
  strings, and these entries are all in the list that \<open>performLottery\<close> returns, each
  as often as it occurs in the group.
\<close>

theorem shared_group_one_gender_or_overflow:
  assumes "performLottery rnd entries = Inr (res, rnd')"
    and "sameSharedGroup entries i j"
  shows "\<exists>st singleRooms arr r.
           sharedPhase rnd entries = Inr (st, singleRooms) \<and>
           singlePhase st singleRooms = Inr (arr, r) \<and>
           res = fst (shuffleArray r (filled arr)) \<and>
           i \<in> set (groupRows entries i) \<and> j \<in> set (groupRows entries i) \<and>
           ((\<forall>k\<in>set (groupRows entries i).
                k \<in> overflowIndices rnd entries \<and>
                (\<exists>p<length (singleRoomsShuffled st singleRooms).
                   singleRoomsShuffled st singleRooms ! p = Some (infoAt (rooms entries) k) \<and>
                   arr ! k =
                     (if p < length (remainingShuffled st)
                      then Some (assignment (remainingShuffled st ! p) (infoAt (rooms entries) k))
                      else None))) \<or>
            (\<exists>gen. (gen = male \<or> gen = female) \<and>
               (\<forall>k\<in>set (groupRows entries i).
                  k \<notin> overflowIndices rnd entries \<and>
                  (\<exists>x. arr ! k = Some x \<and> gender x = gen \<and>
                     roomNumber x = roomNumber (entries ! k))) \<and>
               mset (map (\<lambda>k. the (arr ! k)) (groupRows entries i)) \<subseteq># mset res))"
proof -
  let ?G = "groupRows entries i"
  let ?O = "overflowIndices rnd entries"
  from assms(1) obtain arr r where a: "allocation rnd entries = Inr (arr, r)"
    and res: "res = fst (shuffleArray r (filled arr))"
    by (auto simp: performLottery_def split: sum.splits)
  from a obtain st single where sp: "sharedPhase rnd entries = Inr (st, single)"
    and ph: "singlePhase st single = Inr (arr, r)"
    by (auto simp: allocation_def split: sum.splits)
  have ov: "overflow rnd entries = unassignedSharedRooms st"
    by (simp add: overflow_def sp)
  have len: "length arr = length entries" by (rule allocation_facts(1) [OF a])
  have ij: "i < length entries" "j < length entries" "i \<noteq> j" "keyAt entries i = keyAt entries j"
    using assms(2) by (simp_all add: sameSharedGroup_def)
  have iG: "i \<in> set ?G" and jG: "j \<in> set ?G"
    using ij by (simp_all add: groupRows_iff)
  have pair: "(i \<in> ?O \<and> k \<in> ?O) \<or>
      (i \<notin> ?O \<and> k \<notin> ?O \<and> (\<exists>x y. arr ! i = Some x \<and> arr ! k = Some y \<and> gender x = gender y \<and>
               (gender x = male \<or> gender x = female)))"
    if "k \<in> set ?G" "k \<noteq> i" for k
  proof -
    have "sameSharedGroup entries i k"
      using that ij(1) by (simp add: sameSharedGroup_def groupRows_iff)
    then show ?thesis by (rule allocation_facts(4) [OF a])
  qed
  have main: "(\<forall>k\<in>set ?G.
                k \<in> ?O \<and>
                (\<exists>p<length (singleRoomsShuffled st single).
                   singleRoomsShuffled st single ! p = Some (infoAt (rooms entries) k) \<and>
                   arr ! k =
                     (if p < length (remainingShuffled st)
                      then Some (assignment (remainingShuffled st ! p) (infoAt (rooms entries) k))
                      else None))) \<or>
            (\<exists>gen. (gen = male \<or> gen = female) \<and>
               (\<forall>k\<in>set ?G.
                  k \<notin> ?O \<and>
                  (\<exists>x. arr ! k = Some x \<and> gender x = gen \<and>
                     roomNumber x = roomNumber (entries ! k))) \<and>
               mset (map (\<lambda>k. the (arr ! k)) ?G) \<subseteq># mset res)"
  proof (cases "i \<in> ?O")
    case True
    from singlePhase_overflow [OF sp] ph have each: "\<forall>ri\<in>set (unassignedSharedRooms st).
              ri = infoAt (rooms entries) (originalIndex ri) \<and>
              originalIndex ri < length entries \<and>
              (\<exists>p<length (singleRoomsShuffled st single).
                 singleRoomsShuffled st single ! p = Some ri \<and>
                 arr ! originalIndex ri =
                   (if p < length (remainingShuffled st)
                    then Some (assignment (remainingShuffled st ! p) ri) else None))"
      by auto
    have "k \<in> ?O \<and>
                (\<exists>p<length (singleRoomsShuffled st single).
                   singleRoomsShuffled st single ! p = Some (infoAt (rooms entries) k) \<and>
                   arr ! k =
                     (if p < length (remainingShuffled st)
                      then Some (assignment (remainingShuffled st ! p) (infoAt (rooms entries) k))
                      else None))"
      if k: "k \<in> set ?G" for k
    proof -
      have kO: "k \<in> ?O"
      proof (cases "k = i")
        case True
        then show ?thesis using \<open>i \<in> ?O\<close> by simp
      next
        case False
        from pair [OF k False] True show ?thesis by blast
      qed
      then obtain ri where ri: "ri \<in> set (unassignedSharedRooms st)" "originalIndex ri = k"
        by (auto simp: overflowIndices_def ov)
      from bspec [OF each ri(1)] ri(2) have eq: "ri = infoAt (rooms entries) k" by simp
      from bspec [OF each ri(1)] have "\<exists>p<length (singleRoomsShuffled st single).
                 singleRoomsShuffled st single ! p = Some ri \<and>
                 arr ! originalIndex ri =
                   (if p < length (remainingShuffled st)
                    then Some (assignment (remainingShuffled st ! p) ri) else None)"
        by blast
      then show ?thesis unfolding ri(2) unfolding eq using kO by blast
    qed
    then show ?thesis by blast
  next
    case False
    from pair [OF jG] ij(3) False obtain x0 where x0: "arr ! i = Some x0"
      "gender x0 = male \<or> gender x0 = female"
      by blast
    have each: "k \<notin> ?O \<and> (\<exists>x. arr ! k = Some x \<and> gender x = gender x0 \<and>
                     roomNumber x = roomNumber (entries ! k))"
      if k: "k \<in> set ?G" for k
    proof -
      have kl: "k < length entries" using k by (simp add: groupRows_iff)
      have "k \<notin> ?O \<and> (\<exists>x. arr ! k = Some x \<and> gender x = gender x0)"
      proof (cases "k = i")
        case True
        then show ?thesis using False x0 by simp
      next
        case ne: False
        from pair [OF k ne] False x0(1) show ?thesis by auto
      qed
      then show ?thesis using allocation_facts(2) [OF a] kl by blast
    qed
    have "\<forall>k<length arr. keyAt entries k = keyAt entries i \<longrightarrow> arr ! k \<noteq> None"
      using each by (auto simp: groupRows_iff len)
    then have "mset (map (\<lambda>k. the (arr ! k))
        (filter (\<lambda>k. keyAt entries k = keyAt entries i) [0..<length arr])) \<subseteq># mset (filled arr)"
      by (rule filled_rows)
    then have "mset (map (\<lambda>k. the (arr ! k)) ?G) \<subseteq># mset res"
      by (simp add: groupRows_def len res shuffleArray_mset)
    then show ?thesis using each x0(2) by blast
  qed
  show ?thesis
    using sp ph res iG jG main by blast
qed

lemma overflowIndices_twoMen: "overflowIndices zeros twoMen = {}"
  by (simp add: overflowIndices_def overflow_twoMen)

lemma allocation_twoMen:
  "allocation zeros twoMen =
     Inr ([Some (row ''E2'' male ''S-1-1-101-A''), Some (row ''E1'' male ''S-1-1-101-B''),
           Some (row ''E3'' female ''R2'')], zeros)"
  by (simp add: lottery_eval twoMen_def)

lemma groupRows_twoMen: "groupRows twoMen 0 = [0, 1]"
  by (simp add: groupRows_def keyAt_def twoMen_def row_def js_def parseRoomNumber_def
        dash_def isLetter_def)

lemma sameSharedGroup_twoMen: "sameSharedGroup twoMen 0 1"
  by (simp add: sameSharedGroup_def keyAt_def twoMen_def row_def js_def parseRoomNumber_def
        dash_def isLetter_def)

theorem shared_group_one_gender_or_overflow_witness:
  "performLottery zeros twoMen =
     Inr ([row ''E1'' male ''S-1-1-101-B'', row ''E3'' female ''R2'',
           row ''E2'' male ''S-1-1-101-A''], zeros) \<and>
   sameSharedGroup twoMen 0 1 \<and>
   groupRows twoMen 0 = [0, 1] \<and>
   overflowIndices zeros twoMen = {} \<and>
   allocation zeros twoMen =
     Inr ([Some (row ''E2'' male ''S-1-1-101-A''), Some (row ''E1'' male ''S-1-1-101-B''),
           Some (row ''E3'' female ''R2'')], zeros) \<and>
   mset [row ''E2'' male ''S-1-1-101-A'', row ''E1'' male ''S-1-1-101-B''] \<subseteq>#
     mset [row ''E1'' male ''S-1-1-101-B'', row ''E3'' female ''R2'',
           row ''E2'' male ''S-1-1-101-A'']"
proof -
  let ?res = "[row ''E1'' male ''S-1-1-101-B'', row ''E3'' female ''R2'',
           row ''E2'' male ''S-1-1-101-A'']"
  let ?arr = "[Some (row ''E2'' male ''S-1-1-101-A''), Some (row ''E1'' male ''S-1-1-101-B''),
           Some (row ''E3'' female ''R2'')]"
  from shared_group_one_gender_or_overflow [OF performLottery_twoMen sameSharedGroup_twoMen]
  obtain st singleRooms arr r where sp: "sharedPhase zeros twoMen = Inr (st, singleRooms)"
    and ph: "singlePhase st singleRooms = Inr (arr, r)"
    and d: "(\<forall>k\<in>set (groupRows twoMen 0).
                k \<in> overflowIndices zeros twoMen \<and>
                (\<exists>p<length (singleRoomsShuffled st singleRooms).
                   singleRoomsShuffled st singleRooms ! p = Some (infoAt (rooms twoMen) k) \<and>
                   arr ! k =
                     (if p < length (remainingShuffled st)
                      then Some (assignment (remainingShuffled st ! p) (infoAt (rooms twoMen) k))
                      else None))) \<or>
            (\<exists>gen. (gen = male \<or> gen = female) \<and>
               (\<forall>k\<in>set (groupRows twoMen 0).
                  k \<notin> overflowIndices zeros twoMen \<and>
                  (\<exists>x. arr ! k = Some x \<and> gender x = gen \<and>
                     roomNumber x = roomNumber (twoMen ! k))) \<and>
               mset (map (\<lambda>k. the (arr ! k)) (groupRows twoMen 0)) \<subseteq># mset ?res)"
    by (elim exE conjE)
  have "allocation zeros twoMen = Inr (arr, r)"
    by (simp add: allocation_def sp ph)
  then have arr: "arr = ?arr" by (simp add: allocation_twoMen)
  have "\<not> (\<forall>k\<in>set (groupRows twoMen 0).
                k \<in> overflowIndices zeros twoMen \<and>
                (\<exists>p<length (singleRoomsShuffled st singleRooms).
                   singleRoomsShuffled st singleRooms ! p = Some (infoAt (rooms twoMen) k) \<and>
                   arr ! k =
                     (if p < length (remainingShuffled st)
                      then Some (assignment (remainingShuffled st ! p) (infoAt (rooms twoMen) k))
                      else None)))"
    by (auto simp: groupRows_twoMen overflowIndices_twoMen)
  with d have "mset (map (\<lambda>k. the (arr ! k)) (groupRows twoMen 0)) \<subseteq># mset ?res"
    by blast
  then have "mset [row ''E2'' male ''S-1-1-101-A'', row ''E1'' male ''S-1-1-101-B''] \<subseteq># mset ?res"
    by (simp add: arr groupRows_twoMen)
  then show ?thesis
    using performLottery_twoMen sameSharedGroup_twoMen groupRows_twoMen overflowIndices_twoMen
      allocation_twoMen
    by (intro conjI)
qed

section \<open>The original data in the store\<close>

lemma unchanged_refl: "unchanged s s"
  by (simp add: unchanged_def)

lemma unchanged_lengths:
  assumes "unchanged s0 s"
  shows "length (objects s0) \<le> length (objects s) \<and> length (arrays s0) \<le> length (arrays s)"
proof -
  have "length (take (length (objects s0)) (objects s)) = length (objects s0)"
    using assms by (simp add: unchanged_def)
  moreover have "length (take (length (arrays s0)) (arrays s)) = length (arrays s0)"
    using assms by (simp add: unchanged_def)
  ultimately show ?thesis by (simp add: min_def split: if_splits)
qed

lemma unchanged_nth:
  assumes "unchanged s0 s"
  shows "r < length (objects s0) \<Longrightarrow> objects s ! r = objects s0 ! r"
    and "a < length (arrays s0) \<Longrightarrow> arrays s ! a = arrays s0 ! a"
proof -
  assume r: "r < length (objects s0)"
  have "take (length (objects s0)) (objects s) ! r = objects s ! r" using r by simp
  then show "objects s ! r = objects s0 ! r" using assms by (simp add: unchanged_def)
next
  assume a: "a < length (arrays s0)"
  have "take (length (arrays s0)) (arrays s) ! a = arrays s ! a" using a by simp
  then show "arrays s ! a = arrays s0 ! a" using assms by (simp add: unchanged_def)
qed

lemma unchanged_trans:
  assumes "unchanged s0 s1" and "unchanged s1 s2"
  shows "unchanged s0 s2"
proof -
  have l: "length (objects s0) \<le> length (objects s1)" "length (arrays s0) \<le> length (arrays s1)"
    using unchanged_lengths [OF assms(1)] by simp_all
  from assms have a: "take (length (objects s0)) (objects s1) = objects s0"
    "take (length (arrays s0)) (arrays s1) = arrays s0"
    "take (length (objects s1)) (objects s2) = objects s1"
    "take (length (arrays s1)) (arrays s2) = arrays s1"
    by (simp_all add: unchanged_def)
  have "take (length (objects s0)) (objects s2) =
        take (length (objects s0)) (take (length (objects s1)) (objects s2))"
    using l(1) by (simp add: min_absorb1)
  also have "\<dots> = objects s0" by (simp only: a)
  finally have 1: "take (length (objects s0)) (objects s2) = objects s0" .
  have "take (length (arrays s0)) (arrays s2) =
        take (length (arrays s0)) (take (length (arrays s1)) (arrays s2))"
    using l(2) by (simp add: min_absorb1)
  also have "\<dots> = arrays s0" by (simp only: a)
  finally have 2: "take (length (arrays s0)) (arrays s2) = arrays s0" .
  show ?thesis using 1 2 by (simp add: unchanged_def)
qed

lemma unchanged_newObject: "unchanged s (snd (newObject d s))"
  by (simp add: unchanged_def newObject_def)

lemma unchanged_newArray: "unchanged s (snd (newArray xs s))"
  by (simp add: unchanged_def newArray_def)

lemma unchanged_setElements:
  assumes "unchanged s0 s" and "length (arrays s0) \<le> a"
  shows "unchanged s0 (setElements a xs s)"
  using assms by (simp add: unchanged_def setElements_def)

lemma objectAt_None: "objectAt s None = None"
  by (simp add: objectAt_def)

lemma newObjects_cells:
  "newObjects ds s = (rs, s') \<Longrightarrow>
   objects s' = objects s @ filled ds \<and> arrays s' = arrays s \<and>
   map (objectAt s') rs = ds \<and>
   (\<forall>r. Some r \<in> set rs \<longrightarrow> length (objects s) \<le> r \<and> r < length (objects s'))"
proof (induction ds s arbitrary: rs s' rule: newObjects.induct)
  case (1 s)
  then show ?case by simp
next
  case (2 ds s)
  obtain rs0 s0 where n: "newObjects ds s = (rs0, s0)" by (cases "newObjects ds s")
  from "2.prems" n have eq: "rs = None # rs0" "s' = s0" by simp_all
  from "2.IH" [OF n] show ?case by (auto simp: eq objectAt_None)
next
  case (3 d ds s)
  let ?s1 = "s\<lparr>objects := objects s @ [d]\<rparr>"
  obtain rs0 s0 where n: "newObjects ds ?s1 = (rs0, s0)" by (cases "newObjects ds ?s1")
  from "3.prems" n have eq: "rs = Some (length (objects s)) # rs0" "s' = s0"
    by (simp_all add: newObject_def)
  have ih: "objects s0 = objects ?s1 @ filled ds \<and> arrays s0 = arrays ?s1 \<and>
      map (objectAt s0) rs0 = ds \<and>
      (\<forall>r. Some r \<in> set rs0 \<longrightarrow> length (objects ?s1) \<le> r \<and> r < length (objects s0))"
    by (rule "3.IH" [OF refl _ n]) (simp add: newObject_def)
  then have o: "objects s0 = objects s @ d # filled ds" by simp
  have "objectAt s0 (Some (length (objects s))) = Some d"
    by (simp add: objectAt_def o nth_append)
  then show ?case using ih o by (auto simp: eq)
qed

lemma jsonCopy_cells:
  assumes "jsonCopy a s = (c, s')"
  shows "c = length (arrays s)"
    and "length (arrays s') = Suc (length (arrays s))"
    and "unchanged s s'"
    and "map (objectAt s') (elements s' c) = map (objectAt s) (elements s a)"
    and "\<forall>r. Some r \<in> set (elements s' c) \<longrightarrow> length (objects s) \<le> r \<and> r < length (objects s')"
proof -
  let ?ds = "map (objectAt s) (elements s a)"
  obtain rs s1 where n: "newObjects ?ds s = (rs, s1)" by (cases "newObjects ?ds s")
  note c = newObjects_cells [OF n]
  from assms n have eq: "c = length (arrays s1)" "s' = s1\<lparr>arrays := arrays s1 @ [rs]\<rparr>"
    by (simp_all add: jsonCopy_def newArray_def)
  show "c = length (arrays s)" using eq c by simp
  show "length (arrays s') = Suc (length (arrays s))" using eq c by simp
  show "unchanged s s'" using eq c by (simp add: unchanged_def)
  have el: "elements s' c = rs" using eq by (simp add: elements_def)
  have "objectAt s' = objectAt s1"
    by (rule ext) (simp add: objectAt_def eq split: option.splits)
  then show "map (objectAt s') (elements s' c) = ?ds" using el c by simp
  show "\<forall>r. Some r \<in> set (elements s' c) \<longrightarrow> length (objects s) \<le> r \<and> r < length (objects s')"
    using el c eq by auto
qed

lemma unchanged_assignS:
  assumes "unchanged s0 s" and "length (arrays s0) \<le> res"
  shows "unchanged s0 (assignS res roomInfo employee s)"
proof -
  have "unchanged s0 (snd (newObject (assignment employee roomInfo) s))"
    using assms(1) unchanged_newObject by (rule unchanged_trans)
  then show ?thesis
    using assms(2) by (simp add: assignS_def case_prod_beta unchanged_setElements)
qed

lemma unchanged_assignGroupS:
  assumes "assignGroupS g pool res s = Inr (pool', s')"
    and "unchanged s0 s" and "length (arrays s0) \<le> res"
  shows "unchanged s0 s'"
  using assms
proof (induction g arbitrary: pool s)
  case Nil
  then show ?case by simp
next
  case (Cons ri g)
  show ?case
  proof (cases pool)
    case Nil
    then show ?thesis using Cons.prems(1) by simp
  next
    case (Cons e rest)
    then have "assignGroupS g rest res (assignS res ri e s) = Inr (pool', s')"
      using Cons.prems(1) by simp
    then show ?thesis
      by (rule Cons.IH) (simp_all add: unchanged_assignS Cons.prems(2,3))
  qed
qed

lemma unchanged_sharedStepS:
  assumes "sharedStepS st g = Inr st'"
    and "unchanged s0 (storeS st)" and "length (arrays s0) \<le> resultS st"
  shows "unchanged s0 (storeS st') \<and> resultS st' = resultS st"
proof -
  obtain sel rnd where sel: "selectPoolS st (length g) = (sel, rnd)"
    by (cases "selectPoolS st (length g)")
  show ?thesis
  proof (cases sel)
    case None
    then show ?thesis using assms sel by (auto simp: sharedStepS_def)
  next
    case (Some p)
    show ?thesis
    proof (cases p)
      case MaleEmployees
      then obtain pool' s' where a: "assignGroupS g (maleEmployeesS st) (resultS st) (storeS st) =
          Inr (pool', s')" and st': "st' = st\<lparr>maleEmployeesS := pool', storeS := s', randomS := rnd\<rparr>"
        using assms(1) sel Some by (auto simp: sharedStepS_def split: sum.splits)
      show ?thesis using unchanged_assignGroupS [OF a assms(2,3)] by (simp add: st')
    next
      case FemaleEmployees
      then obtain pool' s' where a: "assignGroupS g (femaleEmployeesS st) (resultS st) (storeS st) =
          Inr (pool', s')" and st': "st' = st\<lparr>femaleEmployeesS := pool', storeS := s', randomS := rnd\<rparr>"
        using assms(1) sel Some by (auto simp: sharedStepS_def split: sum.splits)
      show ?thesis using unchanged_assignGroupS [OF a assms(2,3)] by (simp add: st')
    qed
  qed
qed

lemma unchanged_sharedLoopS:
  assumes "sharedLoopS gs st = Inr st'"
    and "unchanged s0 (storeS st)" and "length (arrays s0) \<le> resultS st"
  shows "unchanged s0 (storeS st') \<and> resultS st' = resultS st"
  using assms
proof (induction gs arbitrary: st)
  case Nil
  then show ?case by simp
next
  case (Cons g gs)
  from Cons.prems(1) obtain st1 where 1: "sharedStepS st g = Inr st1"
    and 2: "sharedLoopS gs st1 = Inr st'"
    by (auto split: sum.splits)
  note s = unchanged_sharedStepS [OF 1 Cons.prems(2,3)]
  have "unchanged s0 (storeS st') \<and> resultS st' = resultS st1"
    by (rule Cons.IH [OF 2]) (use s Cons.prems(3) in simp_all)
  then show ?case using s by simp
qed

lemma unchanged_singleLoopS:
  assumes "singleLoopS slots rem res s = Inr s'"
    and "unchanged s0 s" and "length (arrays s0) \<le> res"
  shows "unchanged s0 s'"
  using assms
proof (induction slots arbitrary: rem s)
  case Nil
  then show ?case by simp
next
  case (Cons x slots)
  show ?case
  proof (cases rem)
    case Nil
    then have "singleLoopS slots [] res s = Inr s'" using Cons.prems(1) by simp
    then show ?thesis by (rule Cons.IH) (rule Cons.prems)+
  next
    case (Cons e rest)
    then obtain info where x: "x = Some info"
      and l: "singleLoopS slots rest res (assignS res info e s) = Inr s'"
      using Cons.prems(1) by (cases x) simp_all
    show ?thesis
      by (rule Cons.IH [OF l]) (simp_all add: unchanged_assignS Cons.prems(2,3))
  qed
qed

lemma elements_setElements:
  "elements (setElements a xs s) a' =
     (if a' = a \<and> a < length (arrays s) then xs else elements s a')"
  by (simp add: elements_def setElements_def)

lemma set_arraySet: "set (arraySet xs i v) \<subseteq> insert None (insert (Some v) (set xs))"
proof (cases "i < length xs")
  case True
  then show ?thesis using set_update_subset_insert [of xs i "Some v"] by (auto simp: arraySet_def)
next
  case False
  then show ?thesis by (auto simp: arraySet_def)
qed

text \<open>The objects in the array \<open>result\<close> are objects made by the call.\<close>

lemma fresh_assignS:
  assumes "\<forall>r. Some r \<in> set (elements s res) \<longrightarrow> n \<le> r" and "n \<le> length (objects s)"
  shows "(\<forall>r. Some r \<in> set (elements (assignS res roomInfo employee s) res) \<longrightarrow> n \<le> r) \<and>
         n \<le> length (objects (assignS res roomInfo employee s))"
proof -
  let ?s1 = "s\<lparr>objects := objects s @ [assignment employee roomInfo]\<rparr>"
  have a: "assignS res roomInfo employee s =
      setElements res (arraySet (elements ?s1 res) (originalIndex roomInfo) (length (objects s))) ?s1"
    by (simp add: assignS_def newObject_def)
  have e: "elements ?s1 res = elements s res" by (simp add: elements_def)
  have "n \<le> r" if "Some r \<in> set (elements (assignS res roomInfo employee s) res)" for r
  proof (cases "res < length (arrays s)")
    case True
    then have "Some r \<in> set (arraySet (elements s res) (originalIndex roomInfo) (length (objects s)))"
      using that by (simp add: a elements_setElements e)
    then have "Some r = Some (length (objects s)) \<or> Some r \<in> set (elements s res)"
      using set_arraySet [of "elements s res" "originalIndex roomInfo" "length (objects s)"] by auto
    then show ?thesis using assms by auto
  next
    case False
    then have "elements (assignS res roomInfo employee s) res = elements ?s1 res"
      by (simp add: a elements_setElements)
    then show ?thesis using that assms(1) by (simp add: e)
  qed
  moreover have "n \<le> length (objects (assignS res roomInfo employee s))"
    using assms(2) by (simp add: a setElements_def)
  ultimately show ?thesis by blast
qed

lemma fresh_assignGroupS:
  assumes "assignGroupS g pool res s = Inr (pool', s')"
    and "\<forall>r. Some r \<in> set (elements s res) \<longrightarrow> n \<le> r" and "n \<le> length (objects s)"
  shows "(\<forall>r. Some r \<in> set (elements s' res) \<longrightarrow> n \<le> r) \<and> n \<le> length (objects s')"
  using assms
proof (induction g arbitrary: pool s)
  case Nil
  then show ?case by simp
next
  case (Cons ri g)
  show ?case
  proof (cases pool)
    case Nil
    then show ?thesis using Cons.prems(1) by simp
  next
    case (Cons e rest)
    then have l: "assignGroupS g rest res (assignS res ri e s) = Inr (pool', s')"
      using Cons.prems(1) by simp
    note f = fresh_assignS [OF Cons.prems(2,3), of ri e]
    show ?thesis by (rule Cons.IH [OF l conjunct1 [OF f] conjunct2 [OF f]])
  qed
qed

lemma fresh_sharedStepS:
  assumes "sharedStepS st g = Inr st'"
    and "\<forall>r. Some r \<in> set (elements (storeS st) (resultS st)) \<longrightarrow> n \<le> r"
    and "n \<le> length (objects (storeS st))"
  shows "(\<forall>r. Some r \<in> set (elements (storeS st') (resultS st)) \<longrightarrow> n \<le> r) \<and>
         n \<le> length (objects (storeS st'))"
proof -
  obtain sel rnd where sel: "selectPoolS st (length g) = (sel, rnd)"
    by (cases "selectPoolS st (length g)")
  show ?thesis
  proof (cases sel)
    case None
    then have "storeS st' = storeS st" using assms(1) sel by (auto simp: sharedStepS_def)
    then show ?thesis using assms(2,3) by simp
  next
    case (Some p)
    show ?thesis
    proof (cases p)
      case MaleEmployees
      then obtain pool' s' where a: "assignGroupS g (maleEmployeesS st) (resultS st) (storeS st) =
          Inr (pool', s')" and st': "st' = st\<lparr>maleEmployeesS := pool', storeS := s', randomS := rnd\<rparr>"
        using assms(1) sel Some by (auto simp: sharedStepS_def split: sum.splits)
      show ?thesis using fresh_assignGroupS [OF a assms(2,3)] by (simp add: st')
    next
      case FemaleEmployees
      then obtain pool' s' where a: "assignGroupS g (femaleEmployeesS st) (resultS st) (storeS st) =
          Inr (pool', s')" and st': "st' = st\<lparr>femaleEmployeesS := pool', storeS := s', randomS := rnd\<rparr>"
        using assms(1) sel Some by (auto simp: sharedStepS_def split: sum.splits)
      show ?thesis using fresh_assignGroupS [OF a assms(2,3)] by (simp add: st')
    qed
  qed
qed

lemma fresh_sharedLoopS:
  assumes "sharedLoopS gs st = Inr st'"
    and "\<forall>r. Some r \<in> set (elements (storeS st) (resultS st)) \<longrightarrow> n \<le> r"
    and "n \<le> length (objects (storeS st))"
    and "unchanged s0 (storeS st)" and "length (arrays s0) \<le> resultS st"
  shows "(\<forall>r. Some r \<in> set (elements (storeS st') (resultS st)) \<longrightarrow> n \<le> r) \<and>
         n \<le> length (objects (storeS st'))"
  using assms
proof (induction gs arbitrary: st)
  case Nil
  then show ?case by simp
next
  case (Cons g gs)
  from Cons.prems(1) obtain st1 where 1: "sharedStepS st g = Inr st1"
    and 2: "sharedLoopS gs st1 = Inr st'"
    by (auto split: sum.splits)
  note u = unchanged_sharedStepS [OF 1 Cons.prems(4,5)]
  note f = fresh_sharedStepS [OF 1 Cons.prems(2,3)]
  have "(\<forall>r. Some r \<in> set (elements (storeS st') (resultS st1)) \<longrightarrow> n \<le> r) \<and>
         n \<le> length (objects (storeS st'))"
    by (rule Cons.IH [OF 2]) (use u f Cons.prems(5) in simp_all)
  then show ?case using u by simp
qed

lemma fresh_singleLoopS:
  assumes "singleLoopS slots rem res s = Inr s'"
    and "\<forall>r. Some r \<in> set (elements s res) \<longrightarrow> n \<le> r" and "n \<le> length (objects s)"
  shows "(\<forall>r. Some r \<in> set (elements s' res) \<longrightarrow> n \<le> r) \<and> n \<le> length (objects s')"
  using assms
proof (induction slots arbitrary: rem s)
  case Nil
  then show ?case by simp
next
  case (Cons x slots)
  show ?case
  proof (cases rem)
    case Nil
    then have "singleLoopS slots [] res s = Inr s'" using Cons.prems(1) by simp
    then show ?thesis by (rule Cons.IH) (rule Cons.prems)+
  next
    case (Cons e rest)
    then obtain info where x: "x = Some info"
      and l: "singleLoopS slots rest res (assignS res info e s) = Inr s'"
      using Cons.prems(1) by (cases x) simp_all
    note f = fresh_assignS [OF Cons.prems(2,3), of info e]
    show ?thesis by (rule Cons.IH [OF l conjunct1 [OF f] conjunct2 [OF f]])
  qed
qed

text \<open>A call of \<open>performLottery\<close> that returns has written no cell that was there
  before: the array it returns is a new one, and so is every object in it.\<close>

lemma performLotteryS_frame:
  assumes "performLotteryS rnd original s = Inr (res, rnd', s')"
  shows "unchanged s s'"
    and "length (arrays s) \<le> res"
    and "res < length (arrays s')"
    and "\<forall>r. Some r \<in> set (elements s' res) \<longrightarrow> length (objects s) \<le> r"
proof -
  let ?data = "fst (jsonCopy original s)"
  let ?s1 = "snd (jsonCopy original s)"
  have jc: "jsonCopy original s = (?data, ?s1)" by simp
  note c = jsonCopy_cells [OF jc]
  from assms obtain ds where ds: "readAll (map (objectAt ?s1) (elements ?s1 ?data)) = Inr ds"
    by (auto simp: performLotteryS_def case_prod_beta split: sum.splits)
  from assms ds obtain sharedRooms singleRooms where
    an: "analyseRooms (rooms ds) = Inr (sharedRooms, singleRooms)"
    by (auto simp: performLotteryS_def case_prod_beta Let_def split: sum.splits)
  let ?m = "filter (\<lambda>e. gender e = male) (employees ds)"
  let ?f = "filter (\<lambda>e. gender e = female) (employees ds)"
  let ?r1 = "snd (shuffleArray rnd ?m)"
  let ?r2 = "snd (shuffleArray ?r1 ?f)"
  let ?res = "length (arrays ?s1)"
  let ?s2 = "?s1\<lparr>arrays := arrays ?s1 @ [replicate (length (elements ?s1 ?data)) None]\<rparr>"
  let ?st0 = "\<lparr>maleEmployeesS = fst (shuffleArray rnd ?m),
      femaleEmployeesS = fst (shuffleArray ?r1 ?f),
      resultS = ?res, unassignedSharedRoomsS = [],
      randomS = snd (shuffleArray ?r2 sharedRooms), storeS = ?s2\<rparr>"
  from assms ds an obtain st where
    loop: "sharedLoopS (fst (shuffleArray ?r2 sharedRooms)) ?st0 = Inr st"
    by (auto simp: performLotteryS_def case_prod_beta Let_def newArray_def split: sum.splits)
  let ?rem = "shuffleArray (randomS st) (maleEmployeesS st @ femaleEmployeesS st)"
  let ?slots = "shuffleArray (snd ?rem) (singleRooms @ map Some (unassignedSharedRoomsS st))"
  from assms ds an loop obtain s3 where
    single: "singleLoopS (fst ?slots) (fst ?rem) ?res (storeS st) = Inr s3"
    by (auto simp: performLotteryS_def case_prod_beta Let_def newArray_def split: sum.splits)
  let ?final = "length (arrays s3)"
  let ?s4 = "s3\<lparr>arrays := arrays s3 @ [filter (\<lambda>r. r \<noteq> None) (elements s3 ?res)]\<rparr>"
  let ?sh = "shuffleArray (snd ?slots) (elements ?s4 ?final)"
  from assms ds an loop single have out: "res = ?final" "s' = setElements ?final (fst ?sh) ?s4"
    by (auto simp: performLotteryS_def case_prod_beta Let_def newArray_def split: sum.splits)
  have u1: "unchanged s ?s1" by (rule c(3))
  have u2: "unchanged s ?s2"
    using u1 unchanged_newArray [of ?s1 "replicate (length (elements ?s1 ?data)) None"]
    by (simp add: newArray_def unchanged_trans)
  have r: "length (arrays s) \<le> ?res" using unchanged_lengths [OF u1] by simp
  have ust: "unchanged s (storeS st) \<and> resultS st = ?res"
    using unchanged_sharedLoopS [OF loop, of s] u2 r by simp
  then have u3: "unchanged s s3"
    using unchanged_singleLoopS [OF single _ r] by simp
  have u4: "unchanged s ?s4"
    using u3 unchanged_newArray [of s3 "filter (\<lambda>r. r \<noteq> None) (elements s3 ?res)"]
    by (simp add: newArray_def unchanged_trans)
  have f: "length (arrays s) \<le> ?final" using unchanged_lengths [OF u3] by simp
  show "unchanged s s'" using unchanged_setElements [OF u4 f] by (simp add: out)
  show "length (arrays s) \<le> res" using f by (simp add: out)
  show "res < length (arrays s')" by (simp add: out setElements_def)
  let ?n = "length (objects s)"
  have e2: "elements ?s2 ?res = replicate (length (elements ?s1 ?data)) None"
    by (simp add: elements_def)
  have f0: "\<forall>r. Some r \<in> set (elements (storeS ?st0) (resultS ?st0)) \<longrightarrow> ?n \<le> r"
    by (simp add: e2)
  have n0: "?n \<le> length (objects (storeS ?st0))" using unchanged_lengths [OF u2] by simp
  have f1: "(\<forall>r. Some r \<in> set (elements (storeS st) (resultS ?st0)) \<longrightarrow> ?n \<le> r) \<and>
         ?n \<le> length (objects (storeS st))"
    by (rule fresh_sharedLoopS [OF loop f0 n0, of s]) (use u2 r in simp_all)
  have f3: "(\<forall>r. Some r \<in> set (elements s3 ?res) \<longrightarrow> ?n \<le> r) \<and> ?n \<le> length (objects s3)"
    by (rule fresh_singleLoopS [OF single]) (use f1 in simp_all)
  have e4: "elements ?s4 ?final = filter (\<lambda>r. r \<noteq> None) (elements s3 ?res)"
    by (simp add: elements_def)
  have "elements s' res = fst ?sh"
    by (simp add: out elements_setElements)
  then have "set (elements s' res) = set (elements ?s4 ?final)"
    by (simp add: shuffleArray_set)
  moreover have "set (elements ?s4 ?final) \<subseteq> set (elements s3 ?res)"
    unfolding e4 by (rule filter_is_subset)
  ultimately have "set (elements s' res) \<subseteq> set (elements s3 ?res)" by simp
  then show "\<forall>r. Some r \<in> set (elements s' res) \<longrightarrow> ?n \<le> r"
    using f3 by blast
qed

lemma unchanged_randomRowsS:
  "randomRowsS data items rnd s = (Inr (rows, s'), rnd') \<Longrightarrow> unchanged s s'"
proof (induction items arbitrary: rnd s rows s' rnd')
  case Nil
  then show ?case by (simp add: unchanged_refl)
next
  case (Cons item items)
  let ?e = "floorTimes (shd rnd) (length data)"
  let ?r = "floorTimes (shd (stl rnd)) (length data)"
  from Cons.prems obtain emp room where
    e: "objectAt s (data ! ?e) = Some emp" and r: "objectAt s (data ! ?r) = Some room"
    by (auto simp: Let_def split: option.splits)
  let ?s1 = "s\<lparr>objects := objects s @ [\<lparr>employeeId = employeeId emp, gender = gender emp,
                                           roomNumber = roomNumber room\<rparr>]\<rparr>"
  obtain rest rnd1 where rec: "randomRowsS data items (stl (stl rnd)) ?s1 = (rest, rnd1)"
    by (cases "randomRowsS data items (stl (stl rnd)) ?s1")
  from Cons.prems e r rec obtain rows1 where
    rest: "rest = Inr (rows1, s')"
    by (auto simp: Let_def newObject_def split: sum.splits)
  have "unchanged ?s1 s'" by (rule Cons.IH) (use rec rest in simp)
  moreover have "unchanged s ?s1" by (simp add: unchanged_def)
  ultimately show ?case by (rule unchanged_trans [rotated])
qed

lemma happenS_module:
  assumes "\<not> (\<exists>r d. e = WriteObject r d)" and "\<not> (\<exists>a xs. e = WriteArray a xs)"
  shows "originalDataS (LotteryModuleS (happenS w e)) = originalDataS (LotteryModuleS w) \<and>
         unchanged (heap w) (heap (happenS w e))"
proof (cases e)
  case (StartRollingS cb)
  then show ?thesis by (simp add: startRollingS_def Let_def unchanged_refl)
next
  case (StopRollingS cb)
  let ?w1 = "w\<lparr>LotteryModuleS := (LotteryModuleS w)\<lparr>isRollingS := False\<rparr>\<rparr>"
  let ?w2 = "(case rollIntervalS (LotteryModuleS ?w1) of
                    None \<Rightarrow> ?w1
                  | Some h \<Rightarrow>
                      if h = 0 then ?w1
                      else (clearIntervalS h ?w1)
                             \<lparr>LotteryModuleS := (LotteryModuleS ?w1)\<lparr>rollIntervalS := None\<rparr>\<rparr>)"
  have w2: "originalDataS (LotteryModuleS ?w2) = originalDataS (LotteryModuleS w)"
    "heap ?w2 = heap w"
    by (simp_all add: clearIntervalS_def split: option.splits)
  show ?thesis
  proof (cases "isRollingS (LotteryModuleS w)")
    case False
    then show ?thesis using StopRollingS by (simp add: stopRollingS_def unchanged_refl)
  next
    case True
    show ?thesis
    proof (cases "performLotteryS (randomSourceS ?w2) (originalDataS (LotteryModuleS ?w2)) (heap ?w2)")
      case (Inl err)
      then have "fst (stopRollingS cb w) = ?w2"
        using True by (simp add: stopRollingS_def Let_def)
      then show ?thesis using StopRollingS w2 by (simp add: unchanged_refl)
    next
      case (Inr x)
      then obtain res rnd' s' where x: "x = (res, rnd', s')" by (cases x) auto
      have "fst (stopRollingS cb w) =
          ?w2\<lparr>LotteryModuleS := (LotteryModuleS ?w2)\<lparr>currentDataS := res\<rparr>,
                   heap := s', randomSourceS := rnd',
                   callsS := callsS ?w2 @ [(cb, res, False)]\<rparr>"
        using True Inr x by (simp add: stopRollingS_def Let_def)
      moreover have "unchanged (heap w) s'"
        using performLotteryS_frame(1) [of "randomSourceS ?w2" "originalDataS (LotteryModuleS ?w2)"
            "heap ?w2" res rnd' s'] Inr x w2 by simp
      ultimately show ?thesis using StopRollingS w2 by simp
    qed
  qed
next
  case GetCurrentDataS
  then show ?thesis by (simp add: unchanged_refl)
next
  case (TickS h)
  show ?thesis
  proof (cases "map_of (intervalsS w) h")
    case None
    then show ?thesis using TickS by (simp add: tickS_def unchanged_refl)
  next
    case (Some t)
    obtain data cb where t: "t = (data, cb)" by (cases t)
    let ?d = "elements (heap w) data"
    obtain rows rnd' where rr: "randomRowsS ?d ?d (randomSourceS w) (heap w) = (rows, rnd')"
      by (cases "randomRowsS ?d ?d (randomSourceS w) (heap w)")
    show ?thesis
    proof (cases rows)
      case (Inl err)
      then show ?thesis using TickS Some t rr by (simp add: tickS_def unchanged_refl)
    next
      case (Inr x)
      obtain rs s1 where x: "x = (rs, s1)" by (cases x)
      have "unchanged (heap w) s1" using unchanged_randomRowsS rr Inr x by blast
      moreover have "unchanged s1 (snd (newArray rs s1))" by (rule unchanged_newArray)
      ultimately have "unchanged (heap w) (snd (newArray rs s1))" by (rule unchanged_trans)
      then show ?thesis using TickS Some t rr Inr x
        by (simp add: tickS_def case_prod_beta)
    qed
  qed
next
  case (WriteObject r d)
  then show ?thesis using assms by simp
next
  case (WriteArray a xs)
  then show ?thesis using assms by simp
qed

lemma preserved_unchanged:
  assumes "preserved b s1 s" and "unchanged s s'"
  shows "preserved b s1 s'"
proof -
  note l = unchanged_lengths [OF assms(2)]
  show ?thesis
    unfolding preserved_def
  proof (intro conjI allI impI)
    show "length (objects s1) \<le> length (objects s')" using assms(1) l by (simp add: preserved_def)
    show "length (arrays s1) \<le> length (arrays s')" using assms(1) l by (simp add: preserved_def)
    fix r assume r: "length (objects b) \<le> r \<and> r < length (objects s1)"
    then have "r < length (objects s)" using assms(1) by (simp add: preserved_def)
    then have "objects s' ! r = objects s ! r" by (rule unchanged_nth(1) [OF assms(2)])
    then show "objects s' ! r = objects s1 ! r" using assms(1) r by (simp add: preserved_def)
  next
    fix a assume a: "length (arrays b) \<le> a \<and> a < length (arrays s1)"
    then have "a < length (arrays s)" using assms(1) by (simp add: preserved_def)
    then have "arrays s' ! a = arrays s ! a" by (rule unchanged_nth(2) [OF assms(2)])
    then show "arrays s' ! a = arrays s1 ! a" using assms(1) a by (simp add: preserved_def)
  qed
qed

lemma happenS_preserved:
  assumes "preserved b s1 (heap w)" and "callerWrite b e"
  shows "originalDataS (LotteryModuleS (happenS w e)) = originalDataS (LotteryModuleS w) \<and>
         preserved b s1 (heap (happenS w e))"
proof (cases e)
  case (WriteObject r d)
  then have "r < length (objects b)" using assms(2) by simp
  then show ?thesis using assms(1) WriteObject by (simp add: preserved_def)
next
  case (WriteArray a xs)
  then have "a < length (arrays b)" using assms(2) by simp
  then show ?thesis using assms(1) WriteArray by (simp add: preserved_def setElements_def)
next
  case (StartRollingS cb)
  then show ?thesis using happenS_module [of e w] preserved_unchanged [OF assms(1)] by simp
next
  case (StopRollingS cb)
  then show ?thesis using happenS_module [of e w] preserved_unchanged [OF assms(1)] by simp
next
  case GetCurrentDataS
  then show ?thesis using assms(1) by simp
next
  case (TickS h)
  then show ?thesis using happenS_module [of e w] preserved_unchanged [OF assms(1)] by simp
qed

lemma eventsS_preserved:
  assumes "preserved b s1 (heap w)" and "\<forall>e\<in>set es. callerWrite b e"
  shows "originalDataS (LotteryModuleS (eventsS w es)) = originalDataS (LotteryModuleS w) \<and>
         preserved b s1 (heap (eventsS w es))"
  using assms unfolding eventsS_def
proof (induction es arbitrary: w)
  case Nil
  then show ?case by simp
next
  case (Cons e es)
  have h: "originalDataS (LotteryModuleS (happenS w e)) = originalDataS (LotteryModuleS w) \<and>
         preserved b s1 (heap (happenS w e))"
    by (rule happenS_preserved) (use Cons.prems in simp_all)
  have "originalDataS (LotteryModuleS (foldl happenS (happenS w e) es)) =
        originalDataS (LotteryModuleS (happenS w e)) \<and>
        preserved b s1 (heap (foldl happenS (happenS w e) es))"
    by (rule Cons.IH) (use h Cons.prems in simp_all)
  then show ?case using h by simp
qed

text \<open>
  Claim C9. \<open>init\<close> stores in \<open>originalData\<close> a new array of new objects, with the
  entries of its argument. Whatever calls of \<open>startRolling\<close>, \<open>stopRolling\<close> and
  \<open>getCurrentData\<close> follow, whichever timers fire in between, and whatever the caller
  writes meanwhile to the arrays and objects that existed before \<open>init\<close> (the array it
  passed among them): the field refers to the same array, the array holds the same
  references, and its entries are, element for element, the entries of the argument at
  the time of \<open>init\<close>. Every call of \<open>performLottery\<close> that returns leaves each cell
  of the store as it was, and returns a new array of new objects: the writes of the
  Allocator go to arrays and objects that the call has made.
\<close>

theorem originalData_never_mutated:
  assumes "\<forall>e\<in>set es. callerWrite (heap w) e"
  shows "originalDataS (LotteryModuleS (eventsS (initS data w) es)) =
           originalDataS (LotteryModuleS (initS data w)) \<and>
         length (arrays (heap w)) \<le> originalDataS (LotteryModuleS (initS data w)) \<and>
         (\<forall>r. Some r \<in> set (elements (heap (initS data w))
                                (originalDataS (LotteryModuleS (initS data w)))) \<longrightarrow>
              length (objects (heap w)) \<le> r) \<and>
         elements (heap (eventsS (initS data w) es))
             (originalDataS (LotteryModuleS (eventsS (initS data w) es))) =
           elements (heap (initS data w)) (originalDataS (LotteryModuleS (initS data w))) \<and>
         entriesAt (heap (eventsS (initS data w) es))
             (originalDataS (LotteryModuleS (eventsS (initS data w) es))) =
           entriesAt (heap w) data \<and>
         (\<forall>rnd original s res rnd' s'.
            performLotteryS rnd original s = Inr (res, rnd', s') \<longrightarrow>
            unchanged s s' \<and> length (arrays s) \<le> res \<and>
            (\<forall>r. Some r \<in> set (elements s' res) \<longrightarrow> length (objects s) \<le> r))"
proof -
  let ?b = "heap w"
  let ?o = "fst (jsonCopy data ?b)"
  let ?s1 = "snd (jsonCopy data ?b)"
  let ?c = "fst (jsonCopy data ?s1)"
  let ?s2 = "snd (jsonCopy data ?s1)"
  let ?w1 = "initS data w"
  let ?w' = "eventsS ?w1 es"
  have j1: "jsonCopy data ?b = (?o, ?s1)" and j2: "jsonCopy data ?s1 = (?c, ?s2)" by simp_all
  note c1 = jsonCopy_cells [OF j1]
  note c2 = jsonCopy_cells [OF j2]
  have w1: "originalDataS (LotteryModuleS ?w1) = ?o" "heap ?w1 = ?s2"
    by (simp_all add: initS_def case_prod_beta)
  have o: "length (arrays ?b) \<le> ?o" "?o < length (arrays ?s1)"
    using c1(1,2) by simp_all
  have l12: "length (objects ?s1) \<le> length (objects ?s2)" "length (arrays ?s1) \<le> length (arrays ?s2)"
    using unchanged_lengths [OF c2(3)] by simp_all
  have e2: "elements ?s2 ?o = elements ?s1 ?o"
    using o(2) l12(2) unchanged_nth(2) [OF c2(3) o(2)] by (simp add: elements_def)
  have refs: "\<forall>r. Some r \<in> set (elements ?s1 ?o) \<longrightarrow>
      length (objects ?b) \<le> r \<and> r < length (objects ?s1)"
    using c1(5) c1(1) by simp
  have p0: "preserved ?b ?s2 (heap ?w1)"
    by (simp add: preserved_def w1)
  have inv: "originalDataS (LotteryModuleS ?w') = originalDataS (LotteryModuleS ?w1) \<and>
      preserved ?b ?s2 (heap ?w')"
    by (rule eventsS_preserved [OF p0 assms])
  then have same: "originalDataS (LotteryModuleS ?w') = ?o" and p: "preserved ?b ?s2 (heap ?w')"
    by (simp_all add: w1)
  from p have pl: "length (objects ?s2) \<le> length (objects (heap ?w'))"
    "length (arrays ?s2) \<le> length (arrays (heap ?w'))"
    and po: "\<And>r. length (objects ?b) \<le> r \<Longrightarrow> r < length (objects ?s2) \<Longrightarrow>
        objects (heap ?w') ! r = objects ?s2 ! r"
    and pa: "\<And>a. length (arrays ?b) \<le> a \<Longrightarrow> a < length (arrays ?s2) \<Longrightarrow>
        arrays (heap ?w') ! a = arrays ?s2 ! a"
    by (simp_all add: preserved_def)
  have el: "elements (heap ?w') ?o = elements ?s1 ?o"
  proof -
    have "?o < length (arrays ?s2)" using o(2) l12(2) by simp
    then have "elements (heap ?w') ?o = elements ?s2 ?o"
      using pa [OF o(1)] pl(2) by (simp add: elements_def)
    then show ?thesis by (simp add: e2)
  qed
  have obj: "objectAt (heap ?w') x = objectAt ?s1 x" if "x \<in> set (elements ?s1 ?o)" for x
  proof (cases x)
    case None
    then show ?thesis by (simp add: objectAt_None)
  next
    case (Some r)
    then have r: "length (objects ?b) \<le> r" "r < length (objects ?s1)" using refs that by blast+
    then have r2: "r < length (objects ?s2)" using l12(1) by simp
    have "objects (heap ?w') ! r = objects ?s2 ! r" by (rule po [OF r(1) r2])
    also have "\<dots> = objects ?s1 ! r" by (rule unchanged_nth(1) [OF c2(3) r(2)])
    finally show ?thesis using Some r2 r(2) pl(1) by (simp add: objectAt_def)
  qed
  have "map (objectAt (heap ?w')) (elements ?s1 ?o) = map (objectAt ?s1) (elements ?s1 ?o)"
    using obj by simp
  then have en: "entriesAt (heap ?w') ?o = entriesAt ?b data"
    using c1(4) by (simp add: entriesAt_def el)
  have fr: "unchanged s s' \<and> length (arrays s) \<le> res \<and>
            (\<forall>r. Some r \<in> set (elements s' res) \<longrightarrow> length (objects s) \<le> r)"
    if "performLotteryS rnd original s = Inr (res, rnd', s')"
    for rnd original s res rnd' s'
    using performLotteryS_frame [OF that] by simp
  show ?thesis
  proof (intro conjI)
    show "originalDataS (LotteryModuleS ?w') = originalDataS (LotteryModuleS ?w1)"
      using same by (simp add: w1)
    show "length (arrays ?b) \<le> originalDataS (LotteryModuleS ?w1)" using o(1) by (simp add: w1)
    show "\<forall>r. Some r \<in> set (elements (heap ?w1) (originalDataS (LotteryModuleS ?w1))) \<longrightarrow>
              length (objects ?b) \<le> r"
      using refs by (simp add: w1 e2)
    show "elements (heap ?w') (originalDataS (LotteryModuleS ?w')) =
           elements (heap ?w1) (originalDataS (LotteryModuleS ?w1))"
      using el by (simp add: same w1 e2)
    show "entriesAt (heap ?w') (originalDataS (LotteryModuleS ?w')) = entriesAt ?b data"
      using en by (simp add: same)
    show "\<forall>rnd original s res rnd' s'.
            performLotteryS rnd original s = Inr (res, rnd', s') \<longrightarrow>
            unchanged s s' \<and> length (arrays s) \<le> res \<and>
            (\<forall>r. Some r \<in> set (elements s' res) \<longrightarrow> length (objects s) \<le> r)"
      using fr by blast
  qed
qed

lemmas store_eval = callerData_def loadedS_def initS_def jsonCopy_def newObject_def newArray_def
  elements_def objectAt_def setElements_def eventsS_def startRollingS_def tickS_def
  stopRollingS_def clearIntervalS_def performLotteryS_def assignS_def sharedStepS_def
  selectPoolS_def entriesAt_def

theorem originalData_never_mutated_witness:
  "fst (callerData twoMen (loadedS zeros :: string windowS)) = 2 \<and>
   entriesAt (heap (snd (callerData twoMen (loadedS zeros :: string windowS)))) 2 =
     map Some twoMen \<and>
   map (callerWrite (heap (snd (callerData twoMen (loadedS zeros :: string windowS)))))
     exampleEvents = [True, True, True, True, True, True] \<and>
   originalDataS (LotteryModuleS
      (eventsS (initS 2 (snd (callerData twoMen (loadedS zeros)))) exampleEvents)) = 3 \<and>
   entriesAt
      (heap (eventsS (initS 2 (snd (callerData twoMen (loadedS zeros)))) exampleEvents))
      (originalDataS (LotteryModuleS
         (eventsS (initS 2 (snd (callerData twoMen (loadedS zeros)))) exampleEvents))) =
     map Some twoMen \<and>
   entriesAt
      (heap (eventsS (initS 2 (snd (callerData twoMen (loadedS zeros)))) exampleEvents)) 2 =
     [] \<and>
   objectAt
      (heap (eventsS (initS 2 (snd (callerData twoMen (loadedS zeros)))) exampleEvents))
      (Some 0) = Some (row ''E9'' female ''R9'') \<and>
   entriesAt
      (heap (eventsS (initS 2 (snd (callerData twoMen (loadedS zeros)))) exampleEvents))
      (currentDataS (LotteryModuleS
         (eventsS (initS 2 (snd (callerData twoMen (loadedS zeros)))) exampleEvents))) =
     map Some [row ''E1'' male ''S-1-1-101-B'', row ''E3'' female ''R2'',
               row ''E2'' male ''S-1-1-101-A'']"
proof -
  let ?w = "snd (callerData twoMen (loadedS zeros :: string windowS))"
  let ?W = "eventsS (initS 2 ?w) exampleEvents"
  have d: "fst (callerData twoMen (loadedS zeros :: string windowS)) = 2"
    by (simp add: store_eval twoMen_def)
  have e: "entriesAt (heap ?w) 2 = map Some twoMen"
    by (simp add: store_eval twoMen_def)
  have c: "map (callerWrite (heap ?w)) exampleEvents = [True, True, True, True, True, True]"
    by (simp add: store_eval twoMen_def exampleEvents_def)
  have h: "\<forall>e\<in>set exampleEvents. callerWrite (heap ?w) e"
    by (simp add: store_eval twoMen_def exampleEvents_def)
  have "entriesAt (heap ?W) (originalDataS (LotteryModuleS ?W)) = entriesAt (heap ?w) 2"
    using originalData_never_mutated [OF h, of 2] by (elim conjE)
  then have t: "entriesAt (heap ?W) (originalDataS (LotteryModuleS ?W)) = map Some twoMen"
    by (simp only: e)
  have o: "originalDataS (LotteryModuleS ?W) = 3"
    by (simp add: store_eval lottery_eval twoMen_def exampleEvents_def)
  have a: "entriesAt (heap ?W) 2 = []"
    by (simp add: store_eval lottery_eval twoMen_def exampleEvents_def)
  have b: "objectAt (heap ?W) (Some 0) = Some (row ''E9'' female ''R9'')"
    by (simp add: store_eval lottery_eval twoMen_def exampleEvents_def)
  have r: "entriesAt (heap ?W) (currentDataS (LotteryModuleS ?W)) =
     map Some [row ''E1'' male ''S-1-1-101-B'', row ''E3'' female ''R2'',
               row ''E2'' male ''S-1-1-101-A'']"
    by (simp add: store_eval lottery_eval twoMen_def exampleEvents_def)
  show ?thesis
    using d e c o t a b r by (intro conjI)
qed

section \<open>When the lottery raises\<close>

lemma addRoom_returns:
  assumes "fst ` set grp \<inter> set objectPrototypeKeys = {}"
  shows "(\<exists>grp'. addRoom grp x = Inr grp' \<and> fst ` set grp' \<inter> set objectPrototypeKeys = {}) \<longleftrightarrow>
         baseRoom (parseRoomNumber (fst x)) \<notin> set objectPrototypeKeys"
    and "addRoom grp x = Inl e \<longleftrightarrow> baseRoom (parseRoomNumber (fst x)) \<in> set objectPrototypeKeys"
proof -
  let ?k = "baseRoom (parseRoomNumber (fst x))"
  have keys: "fst ` set (pushTo ?k v grp) = fst ` set grp" for v
    using pushTo_keys [of ?k v grp] by (metis set_map)
  show "(\<exists>grp'. addRoom grp x = Inr grp' \<and> fst ` set grp' \<inter> set objectPrototypeKeys = {}) \<longleftrightarrow>
         ?k \<notin> set objectPrototypeKeys"
  proof (cases "map_of grp ?k")
    case None
    then show ?thesis using assms by (auto simp: addRoom_def Let_def)
  next
    case (Some l)
    then have "?k \<in> fst ` set grp" using map_of_SomeD [OF Some] by force
    then have "?k \<notin> set objectPrototypeKeys" using assms by blast
    then show ?thesis using Some assms keys by (simp add: addRoom_def Let_def)
  qed
  show "addRoom grp x = Inl e \<longleftrightarrow> ?k \<in> set objectPrototypeKeys"
  proof (cases "map_of grp ?k")
    case None
    then show ?thesis by (cases e) (simp add: addRoom_def Let_def)
  next
    case (Some l)
    then have "?k \<in> fst ` set grp" using map_of_SomeD [OF Some] by force
    then have "?k \<notin> set objectPrototypeKeys" using assms by blast
    then show ?thesis using Some by (simp add: addRoom_def Let_def)
  qed
qed

lemma forEachRoom_returns:
  assumes "fst ` set grp \<inter> set objectPrototypeKeys = {}"
  shows "(\<exists>grp'. forEachRoom grp xs = Inr grp') \<longleftrightarrow>
         (\<forall>x\<in>set xs. baseRoom (parseRoomNumber (fst x)) \<notin> set objectPrototypeKeys)"
  using assms
proof (induction xs arbitrary: grp)
  case Nil
  show ?case by simp
next
  case (Cons x xs)
  show ?case
  proof (cases "baseRoom (parseRoomNumber (fst x)) \<in> set objectPrototypeKeys")
    case True
    then have "addRoom grp x = Inl TypeError" using addRoom_returns(2) [OF Cons.prems] by simp
    then show ?thesis using True by simp
  next
    case False
    then obtain grp1 where 1: "addRoom grp x = Inr grp1"
      "fst ` set grp1 \<inter> set objectPrototypeKeys = {}"
      using addRoom_returns(1) [OF Cons.prems, of x] by blast
    show ?thesis using Cons.IH [OF 1(2)] 1(1) False by simp
  qed
qed

text \<open>
  \<open>performLottery\<close> raises a TypeError exactly when the base room of some row is the
  name of a property of \<open>Object.prototype\<close>; otherwise it returns a list.
\<close>

lemma performLottery_returns:
  "(\<exists>res rnd'. performLottery rnd entries = Inr (res, rnd')) \<longleftrightarrow>
   (\<forall>d\<in>set entries. baseRoom (parseRoomNumber (roomNumber d)) \<notin> set objectPrototypeKeys)"
proof -
  let ?rs = "rooms entries"
  have "map fst (zip ?rs [0..<length ?rs]) = ?rs" by simp
  then have z: "fst ` set (zip ?rs [0..<length ?rs]) = set ?rs" by (metis set_map)
  have "(\<exists>grp. forEachRoom [] (zip ?rs [0..<length ?rs]) = Inr grp) \<longleftrightarrow>
      (\<forall>x\<in>set (zip ?rs [0..<length ?rs]).
         baseRoom (parseRoomNumber (fst x)) \<notin> set objectPrototypeKeys)"
    by (rule forEachRoom_returns) simp
  also have "\<dots> \<longleftrightarrow> (\<forall>r\<in>set ?rs. baseRoom (parseRoomNumber r) \<notin> set objectPrototypeKeys)"
    unfolding z [symmetric] by blast
  also have "\<dots> \<longleftrightarrow>
      (\<forall>d\<in>set entries. baseRoom (parseRoomNumber (roomNumber d)) \<notin> set objectPrototypeKeys)"
    by (simp add: rooms_def)
  finally have an: "(\<exists>sh si. analyseRooms ?rs = Inr (sh, si)) \<longleftrightarrow>
      (\<forall>d\<in>set entries. baseRoom (parseRoomNumber (roomNumber d)) \<notin> set objectPrototypeKeys)"
    by (auto simp: analyseRooms_def split: sum.splits)
  show ?thesis
  proof
    assume "\<exists>res rnd'. performLottery rnd entries = Inr (res, rnd')"
    then have "\<exists>sh si. analyseRooms ?rs = Inr (sh, si)"
      by (auto simp: performLottery_def allocation_def sharedPhase_def Let_def
          split: sum.splits prod.splits)
    then show "\<forall>d\<in>set entries. baseRoom (parseRoomNumber (roomNumber d)) \<notin> set objectPrototypeKeys"
      using an by simp
  next
    assume "\<forall>d\<in>set entries. baseRoom (parseRoomNumber (roomNumber d)) \<notin> set objectPrototypeKeys"
    then obtain sh si where a: "analyseRooms ?rs = Inr (sh, si)" using an by blast
    let ?m = "filter (\<lambda>e. gender e = male) (employees entries)"
    let ?f = "filter (\<lambda>e. gender e = female) (employees entries)"
    let ?r1 = "snd (shuffleArray rnd ?m)"
    let ?r2 = "snd (shuffleArray ?r1 ?f)"
    let ?st0 = "\<lparr>maleEmployees = fst (shuffleArray rnd ?m),
      femaleEmployees = fst (shuffleArray ?r1 ?f),
      result = replicate (length entries) None, unassignedSharedRooms = [],
      random = snd (shuffleArray ?r2 sh)\<rparr>"
    obtain st where l: "sharedLoop (fst (shuffleArray ?r2 sh)) ?st0 = Inr st"
      using sharedLoop_returns by blast
    have sp: "sharedPhase rnd entries = Inr (st, si)"
      using a l by (simp add: sharedPhase_def Let_def case_prod_beta)
    let ?rem = "fst (shuffleArray (random st) (maleEmployees st @ femaleEmployees st))"
    let ?slots = "fst (shuffleArray (snd (shuffleArray (random st)
      (maleEmployees st @ femaleEmployees st))) (allSingleRooms st si))"
    have "mset (map Some (concat sh)) + mset si =
        mset (map (\<lambda>i. Some (infoAt ?rs i)) [0..<length ?rs])"
      by (rule analyseRooms_slots(1) [OF a])
    then have "\<forall>x\<in>set si. x \<noteq> None"
      by (metis (no_types, lifting) ex_map_conv option.distinct(1) set_mset_mset union_iff)
    then have "\<forall>x\<in>set ?slots. x \<noteq> None"
      by (auto simp: shuffleArray_set allSingleRooms_def)
    then have "map Some (map the ?slots) = ?slots" by (rule all_Some_map)
    then have "singleLoop ?slots ?rem (result st) =
        Inr (writeAll (zip (map the ?slots) ?rem) (result st))"
      using singleLoop_eq [of "map the ?slots" ?rem "result st"] by (simp only:)
    then have "\<exists>arr r. singlePhase st si = Inr (arr, r)"
      by (simp add: singlePhase_def Let_def case_prod_beta)
    then show "\<exists>res rnd'. performLottery rnd entries = Inr (res, rnd')"
      using sp by (auto simp: performLottery_def allocation_def case_prod_beta)
  qed
qed

lemma performLottery_toString:
  "performLottery rnd [row ''E1'' male ''toString''] = Inl TypeError"
  by (simp add: lottery_eval)

end
